theory Spec2Isabelle
  imports Main
begin

section \<open>Memory model for list_lib.c\<close>

text \<open>
  The library manipulates three kinds of objects through pointers: \<open>List\<close> headers,
  \<open>Node\<close>s and the character buffers the nodes own. Memory is a store with one
  partial map per kind of object. A pointer is an optional address, \<open>None\<close> being
  \<open>NULL\<close>. Dereferencing \<open>NULL\<close> or an address that holds no live object is
  undefined behaviour in C; the model makes it a \<open>fault\<close> value.
\<close>

type_synonym addr = nat
type_synonym ptr = "addr option"

record Node =
  prev :: ptr
  "next" :: ptr
  data :: ptr

record List_rec =
  head :: ptr
  last_ptr :: ptr

text \<open>The enumeration \<open>Error\<close> and the integer each enumerator has in C.\<close>

datatype Error = ALLOC_FAIL | LEN_INVALID | NULL_PTR

fun error_code :: "Error \<Rightarrow> int" where
  "error_code ALLOC_FAIL = 0"
| "error_code LEN_INVALID = 1"
| "error_code NULL_PTR = 2"

datatype fault = NullDeref | BadPointer | OutOfBounds

text \<open>
  \<open>malloc_plan\<close> lists what the next calls of \<open>malloc\<close> will return (\<open>None\<close> for a
  failed allocation); \<open>err_log\<close> records the calls of \<open>print_error\<close>, in order.
\<close>

record mem =
  list_mem :: "addr \<rightharpoonup> List_rec"
  node_mem :: "addr \<rightharpoonup> Node"
  str_mem :: "addr \<rightharpoonup> string"
  malloc_plan :: "ptr list"
  err_log :: "Error list"

definition bindE :: "fault + 'a \<Rightarrow> ('a \<Rightarrow> fault + 'b) \<Rightarrow> fault + 'b" where
  "bindE m f = (case m of Inl e \<Rightarrow> Inl e | Inr x \<Rightarrow> f x)"

definition print_error :: "Error \<Rightarrow> mem \<Rightarrow> mem" where
  "print_error e s = s\<lparr>err_log := err_log s @ [e]\<rparr>"

subsection \<open>Reading and writing through pointers\<close>

definition rd_node :: "mem \<Rightarrow> ptr \<Rightarrow> fault + Node" where
  "rd_node s p =
     (case p of None \<Rightarrow> Inl NullDeref
      | Some a \<Rightarrow> (case node_mem s a of None \<Rightarrow> Inl BadPointer | Some n \<Rightarrow> Inr n))"

definition wr_node :: "mem \<Rightarrow> ptr \<Rightarrow> (Node \<Rightarrow> Node) \<Rightarrow> fault + mem" where
  "wr_node s p f =
     (case p of None \<Rightarrow> Inl NullDeref
      | Some a \<Rightarrow> (case node_mem s a of None \<Rightarrow> Inl BadPointer
                   | Some n \<Rightarrow> Inr (s\<lparr>node_mem := (node_mem s)(a \<mapsto> f n)\<rparr>)))"

definition rd_list :: "mem \<Rightarrow> ptr \<Rightarrow> fault + List_rec" where
  "rd_list s p =
     (case p of None \<Rightarrow> Inl NullDeref
      | Some a \<Rightarrow> (case list_mem s a of None \<Rightarrow> Inl BadPointer | Some l \<Rightarrow> Inr l))"

definition wr_list :: "mem \<Rightarrow> ptr \<Rightarrow> (List_rec \<Rightarrow> List_rec) \<Rightarrow> fault + mem" where
  "wr_list s p f =
     (case p of None \<Rightarrow> Inl NullDeref
      | Some a \<Rightarrow> (case list_mem s a of None \<Rightarrow> Inl BadPointer
                   | Some l \<Rightarrow> Inr (s\<lparr>list_mem := (list_mem s)(a \<mapsto> f l)\<rparr>)))"

definition rd_str :: "mem \<Rightarrow> ptr \<Rightarrow> fault + string" where
  "rd_str s p =
     (case p of None \<Rightarrow> Inl NullDeref
      | Some a \<Rightarrow> (case str_mem s a of None \<Rightarrow> Inl BadPointer | Some t \<Rightarrow> Inr t))"

subsection \<open>The allocator\<close>

definition live :: "mem \<Rightarrow> addr \<Rightarrow> bool" where
  "live s a = (list_mem s a \<noteq> None \<or> node_mem s a \<noteq> None \<or> str_mem s a \<noteq> None)"

text \<open>
  \<open>malloc\<close> consumes one entry of the plan. It returns \<open>NULL\<close> when the plan is
  exhausted, when the entry is \<open>None\<close>, and when the entry is an address that is in
  use: a block handed out by \<open>malloc\<close> never overlaps a live object.
\<close>

definition malloc :: "mem \<Rightarrow> ptr \<times> mem" where
  "malloc s =
     (case malloc_plan s of
        [] \<Rightarrow> (None, s)
      | r # rest \<Rightarrow>
          (case r of
             None \<Rightarrow> (None, s\<lparr>malloc_plan := rest\<rparr>)
           | Some a \<Rightarrow> if live s a then (None, s\<lparr>malloc_plan := rest\<rparr>)
                       else (Some a, s\<lparr>malloc_plan := rest\<rparr>)))"

text \<open>
  A fresh block holds no meaningful contents until the program writes to it; the model
  fills it with absent links, or the empty string. \<open>make_node\<close> writes every field of
  a node before anything reads it.
\<close>

definition malloc_node :: "mem \<Rightarrow> ptr \<times> mem" where
  "malloc_node s =
     (case malloc s of
        (None, s1) \<Rightarrow> (None, s1)
      | (Some a, s1) \<Rightarrow>
          (Some a, s1\<lparr>node_mem := (node_mem s1)(a \<mapsto> \<lparr>prev = None, next = None, data = None\<rparr>)\<rparr>))"

definition malloc_str :: "mem \<Rightarrow> ptr \<times> mem" where
  "malloc_str s =
     (case malloc s of
        (None, s1) \<Rightarrow> (None, s1)
      | (Some a, s1) \<Rightarrow> (Some a, s1\<lparr>str_mem := (str_mem s1)(a \<mapsto> [])\<rparr>))"

text \<open>\<open>free(NULL)\<close> does nothing; freeing an address that is not live is a fault.\<close>

definition free_node :: "mem \<Rightarrow> ptr \<Rightarrow> fault + mem" where
  "free_node s p =
     (case p of None \<Rightarrow> Inr s
      | Some a \<Rightarrow> (case node_mem s a of None \<Rightarrow> Inl BadPointer
                   | Some n \<Rightarrow> Inr (s\<lparr>node_mem := (node_mem s)(a := None)\<rparr>)))"

definition free_str :: "mem \<Rightarrow> ptr \<Rightarrow> fault + mem" where
  "free_str s p =
     (case p of None \<Rightarrow> Inr s
      | Some a \<Rightarrow> (case str_mem s a of None \<Rightarrow> Inl BadPointer
                   | Some t \<Rightarrow> Inr (s\<lparr>str_mem := (str_mem s)(a := None)\<rparr>)))"

text \<open>\<open>strcpy(dst, src)\<close> into a live buffer.\<close>

definition strcpy :: "mem \<Rightarrow> ptr \<Rightarrow> string \<Rightarrow> fault + mem" where
  "strcpy s p src =
     (case p of None \<Rightarrow> Inl NullDeref
      | Some a \<Rightarrow> (case str_mem s a of None \<Rightarrow> Inl BadPointer
                   | Some t \<Rightarrow> Inr (s\<lparr>str_mem := (str_mem s)(a \<mapsto> src)\<rparr>)))"

section \<open>The list operations\<close>

definition insert_after :: "mem \<Rightarrow> ptr \<Rightarrow> ptr \<Rightarrow> ptr \<Rightarrow> fault + (int \<times> mem)" where
  "insert_after s list node new_node =
     (if list = None \<or> node = None \<or> new_node = None
      then Inr (error_code NULL_PTR, print_error NULL_PTR s)
      else
        bindE (wr_node s new_node (\<lambda>r. r\<lparr>prev := node\<rparr>)) (\<lambda>s1.
        bindE (rd_node s1 node) (\<lambda>n.
        bindE (if next n = None
               then bindE (wr_node s1 new_node (\<lambda>r. r\<lparr>next := None\<rparr>)) (\<lambda>s2.
                    wr_list s2 list (\<lambda>l. l\<lparr>last_ptr := new_node\<rparr>))
               else bindE (wr_node s1 new_node (\<lambda>r. r\<lparr>next := next n\<rparr>)) (\<lambda>s2.
                    wr_node s2 (next n) (\<lambda>r. r\<lparr>prev := new_node\<rparr>))) (\<lambda>s3.
        bindE (wr_node s3 node (\<lambda>r. r\<lparr>next := new_node\<rparr>)) (\<lambda>s4.
        Inr (0, s4))))))"

definition insert_before :: "mem \<Rightarrow> ptr \<Rightarrow> ptr \<Rightarrow> ptr \<Rightarrow> fault + (int \<times> mem)" where
  "insert_before s list node new_node =
     (if list = None \<or> node = None \<or> new_node = None
      then Inr (error_code NULL_PTR, print_error NULL_PTR s)
      else
        bindE (wr_node s new_node (\<lambda>r. r\<lparr>next := node\<rparr>)) (\<lambda>s1.
        bindE (rd_node s1 node) (\<lambda>n.
        bindE (if prev n = None
               then bindE (wr_node s1 new_node (\<lambda>r. r\<lparr>prev := None\<rparr>)) (\<lambda>s2.
                    wr_list s2 list (\<lambda>l. l\<lparr>head := new_node\<rparr>))
               else bindE (wr_node s1 new_node (\<lambda>r. r\<lparr>prev := prev n\<rparr>)) (\<lambda>s2.
                    wr_node s2 (prev n) (\<lambda>r. r\<lparr>next := new_node\<rparr>))) (\<lambda>s3.
        bindE (wr_node s3 node (\<lambda>r. r\<lparr>prev := new_node\<rparr>)) (\<lambda>s4.
        Inr (0, s4))))))"

text \<open>\<open>insert_front\<close> and \<open>insert_end\<close> discard the status of the call they delegate to.\<close>

definition insert_front :: "mem \<Rightarrow> ptr \<Rightarrow> ptr \<Rightarrow> fault + (int \<times> mem)" where
  "insert_front s list new_node =
     (if list = None \<or> new_node = None
      then Inr (error_code NULL_PTR, print_error NULL_PTR s)
      else
        bindE (rd_list s list) (\<lambda>l.
        if head l = None
        then bindE (wr_list s list (\<lambda>l. l\<lparr>head := new_node\<rparr>)) (\<lambda>s1.
             bindE (wr_list s1 list (\<lambda>l. l\<lparr>last_ptr := new_node\<rparr>)) (\<lambda>s2.
             bindE (wr_node s2 new_node (\<lambda>r. r\<lparr>prev := None\<rparr>)) (\<lambda>s3.
             bindE (wr_node s3 new_node (\<lambda>r. r\<lparr>next := None\<rparr>)) (\<lambda>s4.
             Inr (0, s4)))))
        else bindE (insert_before s list (head l) new_node) (\<lambda>(_, s1). Inr (0, s1))))"

definition insert_end :: "mem \<Rightarrow> ptr \<Rightarrow> ptr \<Rightarrow> fault + (int \<times> mem)" where
  "insert_end s list new_node =
     (if list = None \<or> new_node = None
      then Inr (error_code NULL_PTR, print_error NULL_PTR s)
      else
        bindE (rd_list s list) (\<lambda>l.
        if last_ptr l = None
        then bindE (insert_front s list new_node) (\<lambda>(_, s1). Inr (0, s1))
        else bindE (insert_after s list (last_ptr l) new_node) (\<lambda>(_, s1). Inr (0, s1))))"

definition remove_node :: "mem \<Rightarrow> ptr \<Rightarrow> ptr \<Rightarrow> fault + (int \<times> mem)" where
  "remove_node s list node =
     (if list = None \<or> node = None
      then Inr (error_code NULL_PTR, print_error NULL_PTR s)
      else
        bindE (rd_node s node) (\<lambda>n.
        bindE (if prev n = None
               then wr_list s list (\<lambda>l. l\<lparr>head := next n\<rparr>)
               else wr_node s (prev n) (\<lambda>r. r\<lparr>next := next n\<rparr>)) (\<lambda>s1.
        bindE (rd_node s1 node) (\<lambda>n1.
        bindE (if next n1 = None
               then wr_list s1 list (\<lambda>l. l\<lparr>last_ptr := prev n1\<rparr>)
               else wr_node s1 (next n1) (\<lambda>r. r\<lparr>prev := prev n1\<rparr>)) (\<lambda>s2.
        bindE (rd_node s2 node) (\<lambda>n2.
        bindE (free_str s2 (data n2)) (\<lambda>s3.
        bindE (free_node s3 node) (\<lambda>s4.
        Inr (0, s4)))))))))"

text \<open>
  \<open>find\<close> of the source is \<open>find_node\<close> here, and \<open>find_loop\<close> is its loop.
  \<open>strcmp\<close> returns 0 exactly when the two strings are equal. The loop does not
  return on a cyclic chain that holds no match, hence the option type: \<open>None\<close> is a
  run that never returns. In \<open>find_node\<close> the target is read only where the test at
  entry has found it present.
\<close>

partial_function (option) find_loop :: "mem \<Rightarrow> ptr \<Rightarrow> string \<Rightarrow> (fault + ptr) option" where
  "find_loop s i data' =
     (if i = None then Some (Inr None)
      else case rd_node s i of
             Inl e \<Rightarrow> Some (Inl e)
           | Inr n \<Rightarrow>
               (case rd_str s (data n) of
                  Inl e \<Rightarrow> Some (Inl e)
                | Inr t \<Rightarrow> if t = data' then Some (Inr i)
                           else find_loop s (next n) data'))"

definition find_node :: "mem \<Rightarrow> ptr \<Rightarrow> string option \<Rightarrow> (fault + (ptr \<times> mem)) option" where
  "find_node s list data' =
     (if list = None \<or> data' = None
      then Some (Inr (None, print_error NULL_PTR s))
      else case rd_list s list of
             Inl e \<Rightarrow> Some (Inl e)
           | Inr l \<Rightarrow>
               (case find_loop s (head l) (the data') of
                  None \<Rightarrow> None
                | Some (Inl e) \<Rightarrow> Some (Inl e)
                | Some (Inr r) \<Rightarrow> Some (Inr (r, s))))"

text \<open>
  \<open>make_node\<close> reads its argument with \<open>strlen\<close> only after the node itself has been
  allocated, so an absent string faults only when the first allocation succeeded.
\<close>

definition make_node :: "mem \<Rightarrow> string option \<Rightarrow> fault + (ptr \<times> mem)" where
  "make_node s data' =
     (case malloc_node s of
        (None, s1) \<Rightarrow> Inr (None, print_error ALLOC_FAIL s1)
      | (Some a, s1) \<Rightarrow>
          (case data' of
             None \<Rightarrow> Inl NullDeref
           | Some src \<Rightarrow>
               (case malloc_str s1 of (d, s2) \<Rightarrow>
                  bindE (wr_node s2 (Some a) (\<lambda>r. r\<lparr>data := d\<rparr>)) (\<lambda>s3.
                  if d = None
                  then bindE (free_node (print_error ALLOC_FAIL s3) (Some a)) (\<lambda>s4.
                       Inr (None, s4))
                  else bindE (wr_node s3 (Some a) (\<lambda>r. r\<lparr>next := None\<rparr>)) (\<lambda>s4.
                       bindE (wr_node s4 (Some a) (\<lambda>r. r\<lparr>prev := None\<rparr>)) (\<lambda>s5.
                       bindE (strcpy s5 d src) (\<lambda>s6.
                       Inr (Some a, s6))))))))"

text \<open>The loop of \<open>dealloc_list\<close>; it never writes to the list header.\<close>

partial_function (option) dealloc_loop :: "mem \<Rightarrow> ptr \<Rightarrow> (fault + mem) option" where
  "dealloc_loop s i =
     (if i = None then Some (Inr s)
      else case rd_node s i of
             Inl e \<Rightarrow> Some (Inl e)
           | Inr n \<Rightarrow>
               (case free_str s (data n) of
                  Inl e \<Rightarrow> Some (Inl e)
                | Inr s1 \<Rightarrow>
                    (case free_node s1 i of
                       Inl e \<Rightarrow> Some (Inl e)
                     | Inr s2 \<Rightarrow> dealloc_loop s2 (next n))))"

definition dealloc_list :: "mem \<Rightarrow> ptr \<Rightarrow> (fault + mem) option" where
  "dealloc_list s list =
     (if list = None then Some (Inr s)
      else case rd_list s list of
             Inl e \<Rightarrow> Some (Inl e)
           | Inr l \<Rightarrow> dealloc_loop s (head l))"

text \<open>
  The \<open>for\<close> loop of \<open>init_list\<close>. \<open>data\<close> is an array of string pointers; reading
  past its end is a fault. The counter runs from 0 to \<open>data_len\<close>, which is an \<open>int\<close>
  in C, so it never overflows.
\<close>

function init_loop ::
  "mem \<Rightarrow> ptr \<Rightarrow> string option list \<Rightarrow> int \<Rightarrow> int \<Rightarrow> (fault + (int \<times> mem)) option" where
  "init_loop s list arr i data_len =
     (if i < data_len
      then if i < 0 \<or> int (length arr) \<le> i then Some (Inl OutOfBounds)
           else case make_node s (arr ! nat i) of
                  Inl e \<Rightarrow> Some (Inl e)
                | Inr (new_node, s1) \<Rightarrow>
                    if new_node = None
                    then (case dealloc_list s1 list of
                            None \<Rightarrow> None
                          | Some (Inl e) \<Rightarrow> Some (Inl e)
                          | Some (Inr s2) \<Rightarrow> Some (Inr (error_code ALLOC_FAIL, s2)))
                    else (case insert_end s1 list new_node of
                            Inl e \<Rightarrow> Some (Inl e)
                          | Inr (_, s2) \<Rightarrow> init_loop s2 list arr (i + 1) data_len)
      else Some (Inr (0, s)))"
  by pat_completeness auto
termination
  by (relation "measure (\<lambda>(s, list, arr, i, data_len). nat (data_len - i))") auto

declare init_loop.simps [simp del]

definition init_list ::
  "mem \<Rightarrow> ptr \<Rightarrow> string option list option \<Rightarrow> int \<Rightarrow> (fault + (int \<times> mem)) option" where
  "init_list s list data' data_len =
     (case data' of
        None \<Rightarrow> Some (Inr (error_code NULL_PTR, print_error NULL_PTR s))
      | Some arr \<Rightarrow>
          (if data_len < 0
           then Some (Inr (error_code LEN_INVALID, print_error LEN_INVALID s))
           else (case wr_list s list (\<lambda>l. l\<lparr>head := None\<rparr>) of
                   Inl e \<Rightarrow> Some (Inl e)
                 | Inr s1 \<Rightarrow>
                     (case wr_list s1 list (\<lambda>l. l\<lparr>last_ptr := None\<rparr>) of
                        Inl e \<Rightarrow> Some (Inl e)
                      | Inr s2 \<Rightarrow> init_loop s2 list arr 0 data_len))))"

declare find_loop.simps [code]
declare dealloc_loop.simps [code]

section \<open>Well-formed lists\<close>

text \<open>
  The chain of a list is the sequence of the addresses of its nodes, from the head on.
  \<open>hdp xs d\<close> is a pointer to the first address of \<open>xs\<close>, and \<open>lastp xs d\<close> one to
  the last; both are \<open>d\<close> when \<open>xs\<close> is empty.
\<close>

definition hdp :: "addr list \<Rightarrow> ptr \<Rightarrow> ptr" where
  "hdp xs d = (case xs of [] \<Rightarrow> d | a # _ \<Rightarrow> Some a)"

definition lastp :: "addr list \<Rightarrow> ptr \<Rightarrow> ptr" where
  "lastp xs d = (if xs = [] then d else Some (last xs))"

text \<open>
  \<open>dlseg ns pr xs nx\<close>: the nodes at \<open>xs\<close> are live and linked to one another in both
  directions, the first one having \<open>pr\<close> as its \<open>prev\<close> and the last one \<open>nx\<close> as
  its \<open>next\<close>.
\<close>

fun dlseg :: "(addr \<rightharpoonup> Node) \<Rightarrow> ptr \<Rightarrow> addr list \<Rightarrow> ptr \<Rightarrow> bool" where
  "dlseg ns pr [] nx = True"
| "dlseg ns pr (a # as) nx =
     (case ns a of
        None \<Rightarrow> False
      | Some n \<Rightarrow> prev n = pr \<and> next n = hdp as nx \<and> dlseg ns (Some a) as nx)"

definition data_ptr :: "mem \<Rightarrow> addr \<Rightarrow> ptr" where
  "data_ptr s a = (case node_mem s a of None \<Rightarrow> None | Some n \<Rightarrow> data n)"

definition str_of :: "mem \<Rightarrow> addr \<Rightarrow> string option" where
  "str_of s a = (case data_ptr s a of None \<Rightarrow> None | Some d \<Rightarrow> str_mem s d)"

text \<open>Every node of the chain owns a live string buffer, and no two nodes share one.\<close>

definition owns :: "mem \<Rightarrow> addr list \<Rightarrow> bool" where
  "owns s xs = (distinct (map (data_ptr s) xs) \<and> list_all (\<lambda>a. str_of s a \<noteq> None) xs)"

text \<open>
  \<open>wf_list s la xs\<close>: the list header at address \<open>la\<close> satisfies the invariants of the
  data model, with \<open>xs\<close> as its chain: \<open>head\<close> and \<open>last\<close> are absent exactly when the
  chain is empty and point to its two ends otherwise (1), the chain is linked
  consistently in both directions and ends in absent links (2, 3), and no node occurs
  twice (4). Each node of the chain also owns its string, as the data model says of the
  \<open>data\<close> field.
\<close>

definition wf_list :: "mem \<Rightarrow> addr \<Rightarrow> addr list \<Rightarrow> bool" where
  "wf_list s la xs =
     (case list_mem s la of
        None \<Rightarrow> False
      | Some l \<Rightarrow> head l = hdp xs None \<and> last_ptr l = lastp xs None \<and> distinct xs \<and>
                  dlseg (node_mem s) None xs None \<and> owns s xs)"

text \<open>The strings stored in a chain, in order.\<close>

definition contents :: "mem \<Rightarrow> addr list \<Rightarrow> string option list" where
  "contents s xs = map (str_of s) xs"

text \<open>
  \<open>fresh_plan s k\<close>: the next \<open>k\<close> calls of \<open>malloc\<close> succeed, with \<open>k\<close> different
  addresses, none of them in use in \<open>s\<close>.
\<close>

definition fresh_plan :: "mem \<Rightarrow> nat \<Rightarrow> bool" where
  "fresh_plan s k =
     (k \<le> length (malloc_plan s) \<and> distinct (take k (malloc_plan s)) \<and>
      list_all (\<lambda>r. case r of None \<Rightarrow> False | Some a \<Rightarrow> \<not> live s a) (take k (malloc_plan s)))"

text \<open>What a caller reads through a pointer; \<open>None\<close> when there is nothing to read.\<close>

definition next_of :: "mem \<Rightarrow> ptr \<Rightarrow> ptr" where
  "next_of s p = (case rd_node s p of Inl e \<Rightarrow> None | Inr n \<Rightarrow> next n)"

definition prev_of :: "mem \<Rightarrow> ptr \<Rightarrow> ptr" where
  "prev_of s p = (case rd_node s p of Inl e \<Rightarrow> None | Inr n \<Rightarrow> prev n)"

definition head_of :: "mem \<Rightarrow> addr \<Rightarrow> ptr" where
  "head_of s la = (case list_mem s la of None \<Rightarrow> None | Some l \<Rightarrow> head l)"

definition last_of :: "mem \<Rightarrow> addr \<Rightarrow> ptr" where
  "last_of s la = (case list_mem s la of None \<Rightarrow> None | Some l \<Rightarrow> last_ptr l)"

text \<open>The example data of the test suite.\<close>

definition TEST_DATA :: "string option list" where
  "TEST_DATA = map Some [''ABC0'', ''ABC1'', ''ABC2'', ''ABC3'', ''ABC4'',
                          ''ABC5'', ''ABC6'', ''ABC7'', ''ABC8'', ''ABC9'']"

definition DATA_LEN :: int where
  "DATA_LEN = int (length TEST_DATA)"

section \<open>Example memories\<close>

text \<open>
  A list header at address 0 whose chain is the nodes 2, 3, 4, holding the strings
  \<open>a\<close>, \<open>b\<close>, \<open>a\<close>, and a node 5 that is not part of any list.
\<close>

definition demo_mem :: mem where
  "demo_mem =
     \<lparr>list_mem = [0 \<mapsto> \<lparr>head = Some 2, last_ptr = Some 4\<rparr>],
      node_mem = [2 \<mapsto> \<lparr>prev = None, next = Some 3, data = Some 12\<rparr>,
                  3 \<mapsto> \<lparr>prev = Some 2, next = Some 4, data = Some 13\<rparr>,
                  4 \<mapsto> \<lparr>prev = Some 3, next = None, data = Some 14\<rparr>,
                  5 \<mapsto> \<lparr>prev = None, next = None, data = Some 15\<rparr>],
      str_mem = [12 \<mapsto> ''a'', 13 \<mapsto> ''b'', 14 \<mapsto> ''a'', 15 \<mapsto> ''z''],
      malloc_plan = [], err_log = []\<rparr>"

text \<open>A list header at address 0 whose chain is the single node 2, holding \<open>a\<close>.\<close>

definition solo_mem :: mem where
  "solo_mem =
     \<lparr>list_mem = [0 \<mapsto> \<lparr>head = Some 2, last_ptr = Some 2\<rparr>],
      node_mem = [2 \<mapsto> \<lparr>prev = None, next = None, data = Some 12\<rparr>],
      str_mem = [12 \<mapsto> ''a''],
      malloc_plan = [], err_log = []\<rparr>"

text \<open>
  Two memories in which an allocation fails: in \<open>fail_mem\<close> the first call of
  \<open>malloc\<close> returns \<open>NULL\<close>, in \<open>part_mem\<close> the fourth one does. The list header at
  address 0 holds whatever the caller's uninitialised variable held.
\<close>

definition fail_mem :: mem where
  "fail_mem =
     \<lparr>list_mem = [0 \<mapsto> \<lparr>head = Some 7, last_ptr = Some 9\<rparr>],
      node_mem = Map.empty, str_mem = Map.empty,
      malloc_plan = [None], err_log = []\<rparr>"

definition part_mem :: mem where
  "part_mem =
     \<lparr>list_mem = [0 \<mapsto> \<lparr>head = Some 7, last_ptr = Some 9\<rparr>],
      node_mem = Map.empty, str_mem = Map.empty,
      malloc_plan = [Some 2, Some 3, Some 4, None], err_log = []\<rparr>"

section \<open>Basic facts\<close>

subsection \<open>Pointers and segments\<close>

lemma bindE_simps [simp]: "bindE (Inl e) f = Inl e" "bindE (Inr x) f = f x"
  by (simp_all add: bindE_def)

lemma hdp_simps [simp]: "hdp [] d = d" "hdp (a # as) d = Some a"
  by (simp_all add: hdp_def)

lemma lastp_simps [simp]: "lastp [] d = d" "lastp (xs @ [a]) d = Some a"
  by (simp_all add: lastp_def)

lemma lastp_Cons: "lastp (a # as) d = lastp as (Some a)"
  by (simp add: lastp_def)

lemma hdp_append: "hdp (xs @ ys) d = hdp xs (hdp ys d)"
  by (cases xs) simp_all

lemma lastp_append: "lastp (xs @ ys) d = lastp ys (lastp xs d)"
  by (simp add: lastp_def)

lemma dlseg_append: "dlseg ns pr (ys @ zs) nx = (dlseg ns pr ys (hdp zs nx) \<and> dlseg ns (lastp ys pr) zs nx)"
  by (induction ys arbitrary: pr) (auto simp: hdp_append lastp_Cons split: option.splits)

lemma dlseg_cong: "(\<And>a. a \<in> set xs \<Longrightarrow> ns' a = ns a) \<Longrightarrow> dlseg ns' pr xs nx = dlseg ns pr xs nx"
  by (induction xs arbitrary: pr) (auto split: option.splits)

lemma dlseg_upd [simp]: "a \<notin> set xs \<Longrightarrow> dlseg (ns(a := v)) pr xs nx = dlseg ns pr xs nx"
  by (rule dlseg_cong) auto

lemma dlseg_live: "dlseg ns pr xs nx \<Longrightarrow> a \<in> set xs \<Longrightarrow> ns a \<noteq> None"
  by (induction xs arbitrary: pr) (auto split: option.splits)

lemma dlseg_unique: "dlseg ns pr xs None \<Longrightarrow> dlseg ns pr ys None \<Longrightarrow> hdp xs None = hdp ys None \<Longrightarrow> xs = ys"
proof (induction xs arbitrary: ys pr)
  case Nil
  then show ?case by (cases ys) auto
next
  case (Cons a xs)
  then show ?case by (cases ys) (auto split: option.splits)
qed

subsection \<open>Insertion after a node\<close>

text \<open>The memory \<open>insert_after\<close> leaves, at the tail and inside the chain.\<close>

lemma insert_after_last_eff:
  assumes "list_mem s la = Some l" "node_mem s x = Some nx" "next nx = None"
    "node_mem s y = Some ny" "x \<noteq> y"
  shows "insert_after s (Some la) (Some x) (Some y) =
    Inr (0, s\<lparr>node_mem := (node_mem s)(y \<mapsto> ny\<lparr>prev := Some x, next := None\<rparr>, x \<mapsto> nx\<lparr>next := Some y\<rparr>),
               list_mem := (list_mem s)(la \<mapsto> l\<lparr>last_ptr := Some y\<rparr>)\<rparr>)"
  using assms by (simp add: insert_after_def wr_node_def rd_node_def wr_list_def)

lemma insert_after_mid_eff:
  assumes "node_mem s x = Some nx" "next nx = Some z" "node_mem s z = Some nz"
    "node_mem s y = Some ny" "x \<noteq> y" "z \<noteq> y" "x \<noteq> z"
  shows "insert_after s (Some la) (Some x) (Some y) =
    Inr (0, s\<lparr>node_mem := (node_mem s)(y \<mapsto> ny\<lparr>prev := Some x, next := Some z\<rparr>,
                 z \<mapsto> nz\<lparr>prev := Some y\<rparr>, x \<mapsto> nx\<lparr>next := Some y\<rparr>)\<rparr>)"
  using assms by (simp add: insert_after_def wr_node_def rd_node_def wr_list_def)

lemma data_ptr_upd_links [simp]:
  "node_mem s a = Some n \<Longrightarrow> data f = data n \<Longrightarrow>
   data_ptr (s\<lparr>node_mem := (node_mem s)(a \<mapsto> f)\<rparr>) = data_ptr s"
  by (rule ext) (simp add: data_ptr_def)

lemma wf_list_iff:
  "wf_list s la xs \<longleftrightarrow>
     (\<exists>l. list_mem s la = Some l \<and> head l = hdp xs None \<and> last_ptr l = lastp xs None) \<and>
     distinct xs \<and> dlseg (node_mem s) None xs None \<and> owns s xs"
  by (auto simp: wf_list_def split: option.splits)

lemma dlseg_mid:
  "dlseg ns pr (ys @ x # zs) nx \<longleftrightarrow>
     dlseg ns pr ys (Some x) \<and>
     (\<exists>n. ns x = Some n \<and> prev n = lastp ys pr \<and> next n = hdp zs nx) \<and>
     dlseg ns (Some x) zs nx"
  by (auto simp: dlseg_append split: option.splits)

lemma str_of_cong:
  "data_ptr s' = data_ptr s \<Longrightarrow> str_mem s' = str_mem s \<Longrightarrow> str_of s' = str_of s"
  by (auto simp: str_of_def fun_eq_iff split: option.splits)

lemma owns_cong:
  "data_ptr s' = data_ptr s \<Longrightarrow> str_mem s' = str_mem s \<Longrightarrow> owns s' xs = owns s xs"
  using str_of_cong [of s' s] by (simp add: owns_def)

lemma owns_insert:
  "owns s (ys @ x # y # zs) \<longleftrightarrow>
     owns s (ys @ x # zs) \<and> data_ptr s y \<notin> data_ptr s ` set (ys @ x # zs) \<and> str_of s y \<noteq> None"
  by (auto simp: owns_def)

lemma insert_after_wf:
  assumes wf: "wf_list s la (ys @ x # zs)"
    and y: "node_mem s y = Some ny" "y \<notin> set (ys @ x # zs)"
    and d: "data ny = Some d" "str_mem s d \<noteq> None" "Some d \<notin> data_ptr s ` set (ys @ x # zs)"
  shows "\<exists>s'. insert_after s (Some la) (Some x) (Some y) = Inr (0, s') \<and>
           wf_list s' la (ys @ x # y # zs) \<and> data_ptr s' = data_ptr s \<and>
           str_mem s' = str_mem s \<and> malloc_plan s' = malloc_plan s \<and> err_log s' = err_log s \<and>
           dom (node_mem s') = dom (node_mem s) \<and> dom (list_mem s') = dom (list_mem s)"
proof -
  from wf obtain l where l: "list_mem s la = Some l" "head l = hdp (ys @ x # zs) None"
      "last_ptr l = lastp (ys @ x # zs) None"
    and dist: "distinct (ys @ x # zs)"
    and seg: "dlseg (node_mem s) None (ys @ x # zs) None"
    and own: "owns s (ys @ x # zs)"
    unfolding wf_list_iff by blast
  from seg obtain nx where nx: "node_mem s x = Some nx" "prev nx = lastp ys None"
      "next nx = hdp zs None"
    and segl: "dlseg (node_mem s) None ys (Some x)"
    and segr: "dlseg (node_mem s) (Some x) zs None"
    unfolding dlseg_mid by blast
  from y have xy: "x \<noteq> y" and yys: "y \<notin> set ys" and yzs: "y \<notin> set zs" by auto
  from dist have xys: "x \<notin> set ys" and xzs: "x \<notin> set zs" by auto
  have dy: "data_ptr s y = Some d" using y d by (simp add: data_ptr_def)
  have sy: "str_of s y \<noteq> None" using dy d by (simp add: str_of_def)
  have own': "owns s (ys @ x # y # zs)"
    unfolding owns_insert using own dy sy d by simp
  show ?thesis
  proof (cases zs)
    case Nil
    with nx have "next nx = None" by simp
    note eff = insert_after_last_eff [OF l(1) nx(1) this y(1) xy]
    let ?s' = "s\<lparr>node_mem := (node_mem s)(y \<mapsto> ny\<lparr>prev := Some x, next := None\<rparr>, x \<mapsto> nx\<lparr>next := Some y\<rparr>),
               list_mem := (list_mem s)(la \<mapsto> l\<lparr>last_ptr := Some y\<rparr>)\<rparr>"
    have dp: "data_ptr ?s' = data_ptr s"
      using nx y xy by (auto simp: data_ptr_def fun_eq_iff)
    have "owns ?s' (ys @ x # y # zs) = owns s (ys @ x # y # zs)"
      by (rule owns_cong [OF dp]) simp
    then have 1: "owns ?s' (ys @ x # y # zs)" using own' by simp
    have 2: "dlseg (node_mem ?s') None (ys @ x # y # zs) None"
      unfolding dlseg_mid using segl nx xy xys yys Nil by (simp add: lastp_append)
    have 3: "distinct (ys @ x # y # zs)" using dist y by auto
    have 4: "\<exists>l'. list_mem ?s' la = Some l' \<and> head l' = hdp (ys @ x # y # zs) None \<and>
       last_ptr l' = lastp (ys @ x # y # zs) None"
      using l Nil by (simp add: hdp_append lastp_append lastp_Cons)
    have 5: "dom (node_mem ?s') = dom (node_mem s)" "dom (list_mem ?s') = dom (list_mem s)"
      using nx y l by auto
    show ?thesis
      unfolding eff wf_list_iff using 1 2 3 4 5 dp by simp
  next
    case (Cons z zs')
    with nx have nxz: "next nx = Some z" by simp
    from segr Cons obtain nz where z: "node_mem s z = Some nz" "prev nz = Some x" "next nz = hdp zs' None"
      and segr': "dlseg (node_mem s) (Some z) zs' None"
      by (auto split: option.splits)
    from dist Cons y have neq: "z \<noteq> y" "x \<noteq> z" and zys: "z \<notin> set ys" and zzs: "z \<notin> set zs'"
      and yzs': "y \<notin> set zs'" and xzs': "x \<notin> set zs'" by auto
    note eff = insert_after_mid_eff [OF nx(1) nxz z(1) y(1) xy neq]
    let ?s' = "s\<lparr>node_mem := (node_mem s)(y \<mapsto> ny\<lparr>prev := Some x, next := Some z\<rparr>,
                 z \<mapsto> nz\<lparr>prev := Some y\<rparr>, x \<mapsto> nx\<lparr>next := Some y\<rparr>)\<rparr>"
    have dp: "data_ptr ?s' = data_ptr s"
      using nx y z xy neq by (auto simp: data_ptr_def fun_eq_iff)
    have "owns ?s' (ys @ x # y # zs) = owns s (ys @ x # y # zs)"
      by (rule owns_cong [OF dp]) simp
    then have 1: "owns ?s' (ys @ x # y # zs)" using own' by simp
    have 2: "dlseg (node_mem ?s') None (ys @ x # y # zs) None"
      unfolding dlseg_mid Cons using segl segr' nx z xy neq xys yys zys zzs yzs' xzs' by simp
    have 3: "distinct (ys @ x # y # zs)" using dist y by auto
    have 4: "\<exists>l'. list_mem ?s' la = Some l' \<and> head l' = hdp (ys @ x # y # zs) None \<and>
       last_ptr l' = lastp (ys @ x # y # zs) None"
      using l Cons by (simp add: hdp_append lastp_append lastp_Cons)
    have 5: "dom (node_mem ?s') = dom (node_mem s)" "dom (list_mem ?s') = dom (list_mem s)"
      using nx y z l by auto
    show ?thesis
      unfolding eff wf_list_iff using 1 2 3 4 5 dp by simp
  qed
qed

subsection \<open>Removal\<close>

lemma hdp_nonempty: "xs \<noteq> [] \<Longrightarrow> hdp xs d = Some (hd xs)"
  by (cases xs) simp_all

lemma lastp_nonempty: "xs \<noteq> [] \<Longrightarrow> lastp xs d = Some (last xs)"
  by (simp add: lastp_def)

lemma owns_remove:
  "owns s (ys @ x # zs) \<Longrightarrow> owns s (ys @ zs)"
  by (auto simp: owns_def)

lemma dlseg_snoc:
  "dlseg ns pr (ys @ [p]) nx \<longleftrightarrow>
     dlseg ns pr ys (Some p) \<and> (\<exists>n. ns p = Some n \<and> prev n = lastp ys pr \<and> next n = nx)"
  using dlseg_mid [of ns pr ys p "[]" nx] by auto

lemma remove_node_wf:
  assumes wf: "wf_list s la (ys @ x # zs)"
  shows "\<exists>s' nx d. remove_node s (Some la) (Some x) = Inr (0, s') \<and>
           wf_list s' la (ys @ zs) \<and>
           node_mem s x = Some nx \<and> data nx = Some d \<and>
           node_mem s' x = None \<and> dom (node_mem s') = dom (node_mem s) - {x} \<and>
           (\<forall>a. a \<noteq> x \<longrightarrow> data_ptr s' a = data_ptr s a) \<and>
           str_mem s' = (str_mem s)(d := None) \<and>
           contents s' (ys @ zs) = contents s (ys @ zs) \<and>
           malloc_plan s' = malloc_plan s \<and> err_log s' = err_log s \<and>
           dom (list_mem s') = dom (list_mem s)"
proof -
  from wf obtain l where l: "list_mem s la = Some l" "head l = hdp (ys @ x # zs) None"
      "last_ptr l = lastp (ys @ x # zs) None"
    and dist: "distinct (ys @ x # zs)"
    and seg: "dlseg (node_mem s) None (ys @ x # zs) None"
    and own: "owns s (ys @ x # zs)"
    unfolding wf_list_iff by blast
  from seg obtain nx where nx: "node_mem s x = Some nx" "prev nx = lastp ys None"
      "next nx = hdp zs None"
    and segl: "dlseg (node_mem s) None ys (Some x)"
    and segr: "dlseg (node_mem s) (Some x) zs None"
    unfolding dlseg_mid by blast
  from own nx obtain d t where d: "data nx = Some d" "str_mem s d = Some t"
    by (auto simp: owns_def str_of_def data_ptr_def split: option.splits)
  from dist have xys: "x \<notin> set ys" and xzs: "x \<notin> set zs" and dyz: "distinct (ys @ zs)" by auto
  have own': "owns s (ys @ zs)" using own by (rule owns_remove)
  have dnot: "Some d \<notin> data_ptr s ` set (ys @ zs)"
    using own nx d by (auto simp: owns_def data_ptr_def)
  define lm where "lm = (if ys = [] \<and> zs = [] then (list_mem s)(la \<mapsto> l\<lparr>head := None, last_ptr := None\<rparr>)
      else if ys = [] then (list_mem s)(la \<mapsto> l\<lparr>head := hdp zs None\<rparr>)
      else if zs = [] then (list_mem s)(la \<mapsto> l\<lparr>last_ptr := lastp ys None\<rparr>)
      else list_mem s)"
  define nm1 where "nm1 = (if ys = [] then node_mem s
      else (node_mem s)(last ys \<mapsto> (the (node_mem s (last ys)))\<lparr>next := hdp zs None\<rparr>))"
  define nm2 where "nm2 = (if zs = [] then nm1
      else nm1(hd zs \<mapsto> (the (nm1 (hd zs)))\<lparr>prev := lastp ys None\<rparr>))"
  define s' where "s' = s\<lparr>list_mem := lm, node_mem := nm2(x := None), str_mem := (str_mem s)(d := None)\<rparr>"
  have eff: "remove_node s (Some la) (Some x) = Inr (0, s')"
  proof (cases ys rule: rev_cases)
    case Nil
    show ?thesis
    proof (cases zs)
      case Nil
      with \<open>ys = []\<close> l nx d show ?thesis
        by (simp add: remove_node_def rd_node_def wr_list_def free_str_def free_node_def
            s'_def lm_def nm1_def nm2_def)
    next
      case (Cons z zs')
      with segr obtain nz where "node_mem s z = Some nz" by (auto split: option.splits)
      moreover from Cons xzs have "z \<noteq> x" by auto
      ultimately show ?thesis using \<open>ys = []\<close> l nx d Cons
        by (simp add: remove_node_def rd_node_def wr_list_def wr_node_def free_str_def free_node_def
            s'_def lm_def nm1_def nm2_def)
    qed
  next
    case (snoc ys' p)
    with segl obtain np where np: "node_mem s p = Some np" by (auto simp: dlseg_snoc)
    from snoc xys have px: "p \<noteq> x" by auto
    show ?thesis
    proof (cases zs)
      case Nil
      with snoc l nx d np px show ?thesis
        by (simp add: remove_node_def rd_node_def wr_list_def wr_node_def free_str_def free_node_def
            s'_def lm_def nm1_def nm2_def)
    next
      case (Cons z zs')
      with segr obtain nz where "node_mem s z = Some nz" by (auto split: option.splits)
      moreover from Cons xzs have "z \<noteq> x" by auto
      moreover from Cons snoc dist have "z \<noteq> p" by auto
      ultimately show ?thesis using snoc l nx d Cons np px
        by (simp add: remove_node_def rd_node_def wr_list_def wr_node_def free_str_def free_node_def
            s'_def lm_def nm1_def nm2_def)
    qed
  qed
  have nm1_other: "\<And>a. a \<notin> set ys \<Longrightarrow> nm1 a = node_mem s a"
    by (auto simp: nm1_def)
  have nm2_other: "\<And>a. a \<notin> set ys \<Longrightarrow> a \<notin> set zs \<Longrightarrow> nm2 a = node_mem s a"
    by (auto simp: nm2_def nm1_other)
  have segl1: "dlseg nm1 None ys (hdp zs None)"
  proof (cases ys rule: rev_cases)
    case Nil
    then show ?thesis by simp
  next
    case (snoc ys' p)
    with dist have "p \<notin> set ys'" by auto
    with segl snoc show ?thesis
      by (auto simp: dlseg_snoc nm1_def)
  qed
  have segl2: "dlseg nm2 None ys (hdp zs None)"
  proof -
    have "\<And>a. a \<notin> set zs \<Longrightarrow> nm2 a = nm1 a"
      by (auto simp: nm2_def)
    with dist have "\<And>a. a \<in> set ys \<Longrightarrow> nm2 a = nm1 a" by auto
    then have "dlseg nm2 None ys (hdp zs None) = dlseg nm1 None ys (hdp zs None)"
      by (rule dlseg_cong)
    with segl1 show ?thesis by simp
  qed
  have segr1: "dlseg nm1 (Some x) zs None"
  proof -
    from dist nm1_other have "\<And>a. a \<in> set zs \<Longrightarrow> nm1 a = node_mem s a" by auto
    then have "dlseg nm1 (Some x) zs None = dlseg (node_mem s) (Some x) zs None"
      by (rule dlseg_cong)
    with segr show ?thesis by simp
  qed
  have segr2: "dlseg nm2 (lastp ys None) zs None"
  proof (cases zs)
    case Nil
    then show ?thesis by simp
  next
    case (Cons z zs')
    with dist have "z \<notin> set zs'" by auto
    with segr1 Cons show ?thesis
      by (auto simp: nm2_def split: option.splits)
  qed
  have seg': "dlseg (nm2(x := None)) None (ys @ zs) None"
    unfolding dlseg_append using segl2 segr2 xys xzs by simp
  have dp: "\<And>a. a \<noteq> x \<Longrightarrow> data_ptr s' a = data_ptr s a"
  proof -
    fix a assume "a \<noteq> x"
    have "map_option data (nm1 a) = map_option data (node_mem s a)"
      using segl by (cases ys rule: rev_cases) (auto simp: nm1_def dlseg_snoc)
    moreover have "map_option data (nm2 a) = map_option data (nm1 a)"
      using segr1 by (cases zs) (auto simp: nm2_def split: option.splits)
    ultimately have "map_option data (nm2 a) = map_option data (node_mem s a)" by simp
    then show "data_ptr s' a = data_ptr s a"
      using \<open>a \<noteq> x\<close> by (auto simp: data_ptr_def s'_def split: option.splits)
  qed
  have so: "\<And>a. a \<in> set (ys @ zs) \<Longrightarrow> str_of s' a = str_of s a"
  proof -
    fix a assume a: "a \<in> set (ys @ zs)"
    with xys xzs have "a \<noteq> x" by auto
    from dp [OF this] have e: "data_ptr s' a = data_ptr s a" .
    from a dnot have "data_ptr s a \<noteq> Some d" by force
    then show "str_of s' a = str_of s a"
      unfolding str_of_def e by (auto simp: s'_def split: option.splits)
  qed
  have own2: "owns s' (ys @ zs)"
  proof -
    have a: "map (data_ptr s') (ys @ zs) = map (data_ptr s) (ys @ zs)"
      using xys xzs by (intro map_cong refl dp) auto
    show ?thesis
      using own' unfolding owns_def a list_all_iff using so by auto
  qed
  have cont: "contents s' (ys @ zs) = contents s (ys @ zs)"
    unfolding contents_def by (intro map_cong refl so)
  have hl: "\<exists>l'. list_mem s' la = Some l' \<and> head l' = hdp (ys @ zs) None \<and>
       last_ptr l' = lastp (ys @ zs) None"
    using l by (auto simp: s'_def lm_def hdp_append lastp_append lastp_Cons hdp_nonempty lastp_nonempty)
  have wf': "wf_list s' la (ys @ zs)"
    unfolding wf_list_iff using hl dyz seg' own2 by (simp add: s'_def)
  have dom1: "dom nm1 = dom (node_mem s)"
    using segl by (cases ys rule: rev_cases) (auto simp: nm1_def dlseg_snoc)
  have dom2: "dom nm2 = dom nm1"
    using segr1 by (cases zs) (auto simp: nm2_def split: option.splits)
  have doml: "dom lm = dom (list_mem s)" using l by (auto simp: lm_def)
  show ?thesis
    using eff wf' nx d dp dom1 dom2 doml cont by (auto simp: s'_def)
qed

subsection \<open>Search and teardown\<close>

lemma find_loop_seg:
  assumes "dlseg (node_mem s) pr xs None" "list_all (\<lambda>a. str_of s a \<noteq> None) xs"
  shows "find_loop s (hdp xs None) t = Some (Inr (List.find (\<lambda>a. str_of s a = Some t) xs))"
  using assms
proof (induction xs arbitrary: pr)
  case Nil
  then show ?case by (subst find_loop.simps) simp
next
  case (Cons a xs)
  from Cons.prems obtain n where n: "node_mem s a = Some n" "next n = hdp xs None"
    and seg: "dlseg (node_mem s) (Some a) xs None"
    by (auto split: option.splits)
  from Cons.prems n obtain d u where d: "data n = Some d" "str_mem s d = Some u"
    by (auto simp: str_of_def data_ptr_def split: option.splits)
  have sa: "str_of s a = Some u" using n d by (simp add: str_of_def data_ptr_def)
  from Cons.prems have rest: "list_all (\<lambda>a. str_of s a \<noteq> None) xs" by simp
  note IH = Cons.IH [OF seg rest]
  show ?case
    by (subst find_loop.simps) (use n d sa IH in \<open>auto simp: rd_node_def rd_str_def\<close>)
qed

lemma find_node_wf:
  assumes "wf_list s la xs"
  shows "find_node s (Some la) (Some t) = Some (Inr (List.find (\<lambda>a. str_of s a = Some t) xs, s))"
proof -
  from assms obtain l where l: "list_mem s la = Some l" "head l = hdp xs None"
    and seg: "dlseg (node_mem s) None xs None" and own: "owns s xs"
    unfolding wf_list_iff by blast
  from own have "list_all (\<lambda>a. str_of s a \<noteq> None) xs" by (simp add: owns_def)
  from find_loop_seg [OF seg this] l show ?thesis
    by (simp add: find_node_def rd_list_def)
qed

lemma find_node_absent:
  "find_node s None data' = Some (Inr (None, print_error NULL_PTR s))"
  "find_node s list None = Some (Inr (None, print_error NULL_PTR s))"
  by (simp_all add: find_node_def)

lemma dealloc_loop_seg:
  assumes "dlseg (node_mem s) pr xs None" "distinct xs" "owns s xs"
  shows "\<exists>s'. dealloc_loop s (hdp xs None) = Some (Inr s') \<and>
     (\<forall>a. node_mem s' a = (if a \<in> set xs then None else node_mem s a)) \<and>
     (\<forall>d. str_mem s' d = (if Some d \<in> data_ptr s ` set xs then None else str_mem s d)) \<and>
     list_mem s' = list_mem s \<and> malloc_plan s' = malloc_plan s \<and> err_log s' = err_log s"
  using assms
proof (induction xs arbitrary: s pr)
  case Nil
  then show ?case by (subst dealloc_loop.simps) simp
next
  case (Cons a xs)
  from Cons.prems obtain n where n: "node_mem s a = Some n" "next n = hdp xs None"
    and seg: "dlseg (node_mem s) (Some a) xs None"
    by (auto split: option.splits)
  from Cons.prems n obtain d u where d: "data n = Some d" "str_mem s d = Some u"
    by (auto simp: owns_def str_of_def data_ptr_def split: option.splits)
  from Cons.prems have axs: "a \<notin> set xs" and dist: "distinct xs" by auto
  have da: "data_ptr s a = Some d" using n d by (simp add: data_ptr_def)
  from Cons.prems da have dxs: "Some d \<notin> data_ptr s ` set xs" and own: "owns s xs"
    by (auto simp: owns_def)
  define s2 where "s2 = s\<lparr>str_mem := (str_mem s)(d := None), node_mem := (node_mem s)(a := None)\<rparr>"
  have seg2: "dlseg (node_mem s2) (Some a) xs None"
    using seg axs by (simp add: s2_def)
  have dp2: "\<And>b. b \<noteq> a \<Longrightarrow> data_ptr s2 b = data_ptr s b"
    by (simp add: data_ptr_def s2_def)
  have dp2': "map (data_ptr s2) xs = map (data_ptr s) xs"
    using axs by (intro map_cong refl dp2) auto
  have so2: "\<And>b. b \<in> set xs \<Longrightarrow> str_of s2 b = str_of s b"
  proof -
    fix b assume b: "b \<in> set xs"
    with axs have "b \<noteq> a" by auto
    from dp2 [OF this] have e: "data_ptr s2 b = data_ptr s b" .
    from b dxs have "data_ptr s b \<noteq> Some d" by force
    then show "str_of s2 b = str_of s b"
      unfolding str_of_def e by (auto simp: s2_def split: option.splits)
  qed
  have own2: "owns s2 xs"
    using own unfolding owns_def dp2' list_all_iff using so2 by auto
  from Cons.IH [OF seg2 dist own2] obtain s' where s':
    "dealloc_loop s2 (hdp xs None) = Some (Inr s')"
    "\<forall>b. node_mem s' b = (if b \<in> set xs then None else node_mem s2 b)"
    "\<forall>e. str_mem s' e = (if Some e \<in> data_ptr s2 ` set xs then None else str_mem s2 e)"
    "list_mem s' = list_mem s2" "malloc_plan s' = malloc_plan s2" "err_log s' = err_log s2"
    by blast
  have step: "dealloc_loop s (hdp (a # xs) None) = dealloc_loop s2 (hdp xs None)"
    by (subst dealloc_loop.simps)
       (use n d in \<open>simp add: rd_node_def free_str_def free_node_def s2_def\<close>)
  have img: "data_ptr s2 ` set xs = data_ptr s ` set xs"
    using dp2' by (metis image_set)
  have f2: "node_mem s2 = (node_mem s)(a := None)" "str_mem s2 = (str_mem s)(d := None)"
    "list_mem s2 = list_mem s" "malloc_plan s2 = malloc_plan s" "err_log s2 = err_log s"
    by (simp_all add: s2_def)
  have A: "\<forall>b. node_mem s' b = (if b \<in> set (a # xs) then None else node_mem s b)"
    using s'(2) unfolding f2 by auto
  have B: "\<forall>e. str_mem s' e = (if Some e \<in> data_ptr s ` set (a # xs) then None else str_mem s e)"
    using s'(3) da unfolding img f2 by auto
  show ?case
    unfolding step using s'(1,4,5,6) A B unfolding f2 by blast
qed

lemma dealloc_list_wf:
  assumes "wf_list s la xs"
  shows "\<exists>s'. dealloc_list s (Some la) = Some (Inr s') \<and>
     (\<forall>a. node_mem s' a = (if a \<in> set xs then None else node_mem s a)) \<and>
     (\<forall>d. str_mem s' d = (if Some d \<in> data_ptr s ` set xs then None else str_mem s d)) \<and>
     list_mem s' = list_mem s \<and> malloc_plan s' = malloc_plan s \<and> err_log s' = err_log s"
proof -
  from assms obtain l where l: "list_mem s la = Some l" "head l = hdp xs None"
    and seg: "dlseg (node_mem s) None xs None" and own: "owns s xs" and dist: "distinct xs"
    unfolding wf_list_iff by blast
  from dealloc_loop_seg [OF seg dist own] l show ?thesis
    by (simp add: dealloc_list_def rd_list_def)
qed

subsection \<open>Construction\<close>

lemma make_node_ok:
  assumes "malloc_plan s = Some a # Some d # rest" "\<not> live s a" "\<not> live s d" "a \<noteq> d"
  shows "make_node s (Some t) =
    Inr (Some a, s\<lparr>malloc_plan := rest,
                   node_mem := (node_mem s)(a \<mapsto> \<lparr>prev = None, next = None, data = Some d\<rparr>),
                   str_mem := (str_mem s)(d \<mapsto> t)\<rparr>)"
  using assms
  by (simp add: make_node_def malloc_node_def malloc_str_def malloc_def live_def wr_node_def strcpy_def)

lemma wf_list_frame:
  assumes "wf_list s la xs" "list_mem s' la = list_mem s la"
    "\<And>a. a \<in> set xs \<Longrightarrow> node_mem s' a = node_mem s a"
    "\<And>a. a \<in> set xs \<Longrightarrow> str_of s' a = str_of s a"
  shows "wf_list s' la xs"
proof -
  have 1: "dlseg (node_mem s') None xs None = dlseg (node_mem s) None xs None"
    using assms(3) by (rule dlseg_cong)
  have 2: "map (data_ptr s') xs = map (data_ptr s) xs"
    using assms(3) by (intro map_cong refl) (simp add: data_ptr_def)
  have 3: "list_all (\<lambda>a. str_of s' a \<noteq> None) xs = list_all (\<lambda>a. str_of s a \<noteq> None) xs"
    using assms(4) by (simp add: list_all_iff)
  show ?thesis
    using assms(1) unfolding wf_list_iff owns_def 1 2 3 assms(2) by simp
qed

lemma wf_list_live: "wf_list s la xs \<Longrightarrow> a \<in> set xs \<Longrightarrow> node_mem s a \<noteq> None"
  unfolding wf_list_iff using dlseg_live by blast

lemma wf_list_str_live:
  assumes "wf_list s la xs" "a \<in> set xs"
  shows "\<exists>d. data_ptr s a = Some d \<and> str_mem s d \<noteq> None"
  using assms unfolding wf_list_iff owns_def list_all_iff str_of_def
  by (auto split: option.splits)

lemma insert_end_wf:
  assumes wf: "wf_list s la xs"
    and y: "node_mem s y = Some ny" "y \<notin> set xs"
    and d: "data ny = Some d" "str_mem s d \<noteq> None" "Some d \<notin> data_ptr s ` set xs"
  shows "\<exists>s'. insert_end s (Some la) (Some y) = Inr (0, s') \<and>
           wf_list s' la (xs @ [y]) \<and> data_ptr s' = data_ptr s \<and>
           str_mem s' = str_mem s \<and> malloc_plan s' = malloc_plan s \<and> err_log s' = err_log s \<and>
           dom (node_mem s') = dom (node_mem s) \<and> dom (list_mem s') = dom (list_mem s)"
proof (cases xs rule: rev_cases)
  case Nil
  from wf Nil obtain l where l: "list_mem s la = Some l" "head l = None" "last_ptr l = None"
    unfolding wf_list_iff by auto
  let ?s' = "s\<lparr>list_mem := (list_mem s)(la \<mapsto> l\<lparr>head := Some y, last_ptr := Some y\<rparr>),
              node_mem := (node_mem s)(y \<mapsto> ny\<lparr>prev := None, next := None\<rparr>)\<rparr>"
  have eff: "insert_end s (Some la) (Some y) = Inr (0, ?s')"
    using l y by (simp add: insert_end_def insert_front_def rd_list_def wr_list_def wr_node_def)
  have dp: "data_ptr ?s' = data_ptr s"
    using y by (auto simp: data_ptr_def fun_eq_iff)
  have so: "str_of ?s' = str_of s" by (rule str_of_cong [OF dp]) simp
  have "str_of s y \<noteq> None" using y d by (simp add: str_of_def data_ptr_def)
  then have own: "owns ?s' [y]" unfolding owns_def so by simp
  have "wf_list ?s' la [y]"
    unfolding wf_list_iff using own by (simp add: lastp_def)
  moreover have "dom (node_mem ?s') = dom (node_mem s)" "dom (list_mem ?s') = dom (list_mem s)"
    using y l by auto
  ultimately show ?thesis unfolding eff using dp Nil by simp
next
  case (snoc ys x)
  from wf snoc obtain l where l: "list_mem s la = Some l" "last_ptr l = Some x"
    unfolding wf_list_iff by auto
  have "insert_end s (Some la) (Some y) =
      bindE (insert_after s (Some la) (Some x) (Some y)) (\<lambda>(_, s1). Inr (0, s1))"
    using l by (simp add: insert_end_def rd_list_def)
  moreover from insert_after_wf [of s la ys x "[]" y ny d] wf y d snoc
  obtain s' where "insert_after s (Some la) (Some x) (Some y) = Inr (0, s')"
    "wf_list s' la (ys @ [x, y])" "data_ptr s' = data_ptr s" "str_mem s' = str_mem s"
    "malloc_plan s' = malloc_plan s" "err_log s' = err_log s"
    "dom (node_mem s') = dom (node_mem s)" "dom (list_mem s') = dom (list_mem s)"
    by auto
  ultimately show ?thesis using snoc by simp
qed

lemma fresh_plan_step:
  assumes "fresh_plan s (Suc (Suc j))"
  obtains a d rest where "malloc_plan s = Some a # Some d # rest" "\<not> live s a" "\<not> live s d"
    "a \<noteq> d" "j \<le> length rest" "distinct (take j rest)" "Some a \<notin> set (take j rest)"
    "Some d \<notin> set (take j rest)"
    "list_all (\<lambda>r. case r of None \<Rightarrow> False | Some a \<Rightarrow> \<not> live s a) (take j rest)"
proof -
  from assms obtain r1 r2 rest where p: "malloc_plan s = r1 # r2 # rest"
    by (cases "malloc_plan s"; cases "tl (malloc_plan s)") (auto simp: fresh_plan_def)
  with assms obtain a d where "r1 = Some a" "r2 = Some d"
    by (cases r1; cases r2) (auto simp: fresh_plan_def)
  with p assms that show thesis
    by (auto simp: fresh_plan_def)
qed

lemma insert_end_frame:
  assumes wf: "wf_list s la xs"
    and y: "node_mem s y = Some ny" "y \<notin> set xs"
  shows "\<exists>s'. insert_end s (Some la) (Some y) = Inr (0, s') \<and>
           (\<forall>b. b \<notin> set xs \<longrightarrow> b \<noteq> y \<longrightarrow> node_mem s' b = node_mem s b)"
proof (cases xs rule: rev_cases)
  case Nil
  from wf Nil obtain l where l: "list_mem s la = Some l" "head l = None" "last_ptr l = None"
    unfolding wf_list_iff by auto
  then show ?thesis
    using y by (simp add: insert_end_def insert_front_def rd_list_def wr_list_def wr_node_def)
next
  case (snoc ys x)
  from wf snoc obtain l where l: "list_mem s la = Some l" "last_ptr l = Some x"
    and seg: "dlseg (node_mem s) None (ys @ [x]) None"
    unfolding wf_list_iff by auto
  from seg obtain nx where nx: "node_mem s x = Some nx" "next nx = None"
    unfolding dlseg_snoc by blast
  from y snoc have xy: "x \<noteq> y" by auto
  show ?thesis
    using l snoc unfolding insert_end_def
    by (simp add: rd_list_def insert_after_last_eff [OF l(1) nx y(1) xy])
qed

text \<open>One round of the loop of \<open>init_list\<close> in which both allocations succeed.\<close>

lemma init_step:
  assumes wf: "wf_list s la xs"
    and p: "malloc_plan s = Some a # Some d # rest" "\<not> live s a" "\<not> live s d" "a \<noteq> d"
  shows "\<exists>s1 s2. make_node s (Some t) = Inr (Some a, s1) \<and>
     insert_end s1 (Some la) (Some a) = Inr (0, s2) \<and>
     wf_list s2 la (xs @ [a]) \<and> malloc_plan s2 = rest \<and> err_log s2 = err_log s \<and>
     (\<forall>b. live s2 b \<longleftrightarrow> live s b \<or> b = a \<or> b = d) \<and>
     contents s2 (xs @ [a]) = contents s xs @ [Some t] \<and>
     (\<forall>b. b \<notin> set xs \<longrightarrow> b \<noteq> a \<longrightarrow> node_mem s2 b = node_mem s b) \<and>
     str_mem s2 = (str_mem s)(d \<mapsto> t) \<and>
     data_ptr s2 ` set (xs @ [a]) = insert (Some d) (data_ptr s ` set xs)"
proof -
  define s1 where "s1 = s\<lparr>malloc_plan := rest,
                   node_mem := (node_mem s)(a \<mapsto> \<lparr>prev = None, next = None, data = Some d\<rparr>),
                   str_mem := (str_mem s)(d \<mapsto> t)\<rparr>"
  have mk: "make_node s (Some t) = Inr (Some a, s1)"
    using make_node_ok [OF p] by (simp add: s1_def)
  have axs: "a \<notin> set xs" using wf_list_live [OF wf, of a] p(2) by (auto simp: live_def)
  have dxs: "Some d \<notin> data_ptr s ` set xs"
  proof
    assume "Some d \<in> data_ptr s ` set xs"
    then obtain b where b: "b \<in> set xs" "data_ptr s b = Some d" by force
    from wf_list_str_live [OF wf b(1)] b(2) have "str_mem s d \<noteq> None" by auto
    with p(3) show False by (simp add: live_def)
  qed
  have nm1: "\<And>b. b \<in> set xs \<Longrightarrow> node_mem s1 b = node_mem s b"
    using axs by (auto simp: s1_def)
  have dp1: "\<And>b. b \<in> set xs \<Longrightarrow> data_ptr s1 b = data_ptr s b"
    using nm1 by (simp add: data_ptr_def)
  have so1: "\<And>b. b \<in> set xs \<Longrightarrow> str_of s1 b = str_of s b"
  proof -
    fix b assume b: "b \<in> set xs"
    from b dxs have "data_ptr s b \<noteq> Some d" by force
    with dp1 [OF b] show "str_of s1 b = str_of s b"
      by (auto simp: str_of_def s1_def split: option.splits)
  qed
  have wf1: "wf_list s1 la xs"
    by (rule wf_list_frame [OF wf _ nm1 so1]) (simp_all add: s1_def)
  have img1: "data_ptr s1 ` set xs = data_ptr s ` set xs"
    by (intro image_cong refl dp1)
  have dxs1: "Some d \<notin> data_ptr s1 ` set xs" using dxs img1 by simp
  have ny: "node_mem s1 a = Some \<lparr>prev = None, next = None, data = Some d\<rparr>"
    by (simp add: s1_def)
  have sd: "str_mem s1 d \<noteq> None" by (simp add: s1_def)
  from insert_end_wf [OF wf1 ny axs _ sd dxs1]
  obtain s2 where s2: "insert_end s1 (Some la) (Some a) = Inr (0, s2)"
    "wf_list s2 la (xs @ [a])" "data_ptr s2 = data_ptr s1" "str_mem s2 = str_mem s1"
    "malloc_plan s2 = malloc_plan s1" "err_log s2 = err_log s1"
    "dom (node_mem s2) = dom (node_mem s1)" "dom (list_mem s2) = dom (list_mem s1)"
    by auto
  from insert_end_frame [OF wf1 ny axs] s2(1)
  have fr: "\<forall>b. b \<notin> set xs \<longrightarrow> b \<noteq> a \<longrightarrow> node_mem s2 b = node_mem s b"
    by (auto simp: s1_def)
  have live2: "\<forall>b. live s2 b \<longleftrightarrow> live s b \<or> b = a \<or> b = d"
  proof
    fix b
    have "node_mem s2 b \<noteq> None \<longleftrightarrow> node_mem s1 b \<noteq> None"
      using s2(7) by (auto simp: dom_def set_eq_iff)
    moreover have "list_mem s2 b \<noteq> None \<longleftrightarrow> list_mem s1 b \<noteq> None"
      using s2(8) by (auto simp: dom_def set_eq_iff)
    ultimately show "live s2 b \<longleftrightarrow> live s b \<or> b = a \<or> b = d"
      unfolding live_def s2(4) by (auto simp: s1_def)
  qed
  have so2: "str_of s2 = str_of s1" by (rule str_of_cong [OF s2(3,4)])
  have c2: "contents s2 (xs @ [a]) = contents s xs @ [Some t]"
    unfolding contents_def so2 using so1 by (simp add: str_of_def data_ptr_def s1_def)
  have img2: "data_ptr s2 ` set (xs @ [a]) = insert (Some d) (data_ptr s ` set xs)"
    unfolding s2(3) using img1 by (simp add: data_ptr_def s1_def)
  from mk s2(1,2) s2(5,6) live2 c2 fr s2(4) img2 show ?thesis
    by (simp add: s1_def)
qed

lemma init_loop_ok:
  assumes "wf_list s la xs" "m + k = n" "n \<le> length arr"
    "list_all (\<lambda>x. x \<noteq> None) (take k (drop m arr))" "fresh_plan s (2 * k)"
  shows "\<exists>s' ys. init_loop s (Some la) arr (int m) (int n) = Some (Inr (0, s')) \<and>
     wf_list s' la (xs @ ys) \<and> length ys = k \<and>
     contents s' (xs @ ys) = contents s xs @ take k (drop m arr) \<and>
     err_log s' = err_log s \<and> malloc_plan s' = drop (2 * k) (malloc_plan s)"
  using assms
proof (induction k arbitrary: s xs m)
  case 0
  then show ?case
    by (subst init_loop.simps) (auto intro: exI [of _ "[]"])
next
  case (Suc k)
  from Suc.prems(5) have "fresh_plan s (Suc (Suc (2 * k)))" by simp
  then obtain a d rest where p: "malloc_plan s = Some a # Some d # rest" "\<not> live s a"
    "\<not> live s d" "a \<noteq> d" and r: "2 * k \<le> length rest" "distinct (take (2 * k) rest)"
    "Some a \<notin> set (take (2 * k) rest)" "Some d \<notin> set (take (2 * k) rest)"
    "list_all (\<lambda>r. case r of None \<Rightarrow> False | Some a \<Rightarrow> \<not> live s a) (take (2 * k) rest)"
    by (rule fresh_plan_step)
  from Suc.prems have m: "m < n" "m < length arr" by auto
  have tk0: "take (Suc k) (drop m arr) = arr ! m # take k (drop (Suc m) arr)"
    using m by (simp add: Cons_nth_drop_Suc [symmetric])
  from Suc.prems(4) obtain t where t: "arr ! m = Some t"
    unfolding tk0 by auto
  from init_step [OF Suc.prems(1) p, of t] obtain s1 s2 where
    mk: "make_node s (Some t) = Inr (Some a, s1)"
    and ie: "insert_end s1 (Some la) (Some a) = Inr (0, s2)"
    and wf2: "wf_list s2 la (xs @ [a])"
    and pl2: "malloc_plan s2 = rest" and el2: "err_log s2 = err_log s"
    and live2: "\<forall>b. live s2 b \<longleftrightarrow> live s b \<or> b = a \<or> b = d"
    and c2: "contents s2 (xs @ [a]) = contents s xs @ [Some t]"
    by blast
  have fp2: "fresh_plan s2 (2 * k)"
    unfolding fresh_plan_def pl2
    using r by (auto simp: list_all_iff live2 split: option.splits)
  have rest: "list_all (\<lambda>x. x \<noteq> None) (take k (drop (Suc m) arr))"
    using Suc.prems(4) unfolding tk0 by simp
  from Suc.prems(2) have mk': "Suc m + k = n" by simp
  from Suc.IH [OF wf2 mk' Suc.prems(3) rest fp2]
  obtain s' ys where s': "init_loop s2 (Some la) arr (int (Suc m)) (int n) = Some (Inr (0, s'))"
    "wf_list s' la ((xs @ [a]) @ ys)" "length ys = k"
    "contents s' ((xs @ [a]) @ ys) = contents s2 (xs @ [a]) @ take k (drop (Suc m) arr)"
    "err_log s' = err_log s2" "malloc_plan s' = drop (2 * k) (malloc_plan s2)"
    by blast
  have step: "init_loop s (Some la) arr (int m) (int n) = init_loop s2 (Some la) arr (int (Suc m)) (int n)"
    by (subst init_loop.simps) (use m t mk ie in \<open>simp add: add.commute\<close>)
  show ?case
    unfolding step tk0 t
    using s' c2 pl2 el2 p(1)
    by (intro exI [of _ s'] exI [of _ "a # ys"]) simp
qed

text \<open>
  A run of the loop in which an allocation fails: the nodes built so far, the ones the
  list held before included, and their strings are freed, and the status is 0.
\<close>

lemma wf_list_same_heap:
  assumes "wf_list s la xs" "list_mem s' = list_mem s" "node_mem s' = node_mem s"
    "str_mem s' = str_mem s"
  shows "wf_list s' la xs"
proof -
  have "data_ptr s' = data_ptr s" using assms(3) by (simp add: fun_eq_iff data_ptr_def)
  then have "str_of s' = str_of s" using assms(4) by (rule str_of_cong)
  with assms show ?thesis by (intro wf_list_frame [OF assms(1)]) simp_all
qed

lemma init_loop_rollback:
  assumes "wf_list s la xs" "m + k = n" "n \<le> length arr"
    "list_all (\<lambda>x. x \<noteq> None) (take k (drop m arr))"
    "malloc_plan s = map Some as @ None # rest" "length as < 2 * k" "distinct as"
    "list_all (\<lambda>a. \<not> live s a) as"
  shows "\<exists>s'. init_loop s (Some la) arr (int m) (int n) = Some (Inr (0, s')) \<and>
     (\<forall>b. node_mem s' b = (if b \<in> set xs then None else node_mem s b)) \<and>
     (\<forall>e. str_mem s' e = (if Some e \<in> data_ptr s ` set xs then None else str_mem s e)) \<and>
     err_log s' = err_log s @ [ALLOC_FAIL]"
  using assms
proof (induction k arbitrary: s xs m as)
  case 0
  then show ?case by simp
next
  case (Suc k)
  note wf = Suc.prems(1)
  from Suc.prems have m: "m < n" "m < length arr" by auto
  have tk0: "take (Suc k) (drop m arr) = arr ! m # take k (drop (Suc m) arr)"
    using m by (simp add: Cons_nth_drop_Suc [symmetric])
  from Suc.prems(4) obtain t where t: "arr ! m = Some t"
    unfolding tk0 by auto
  have unroll: "init_loop s (Some la) arr (int m) (int n) =
     (case make_node s (Some t) of
        Inl e \<Rightarrow> Some (Inl e)
      | Inr (new_node, s1) \<Rightarrow>
          if new_node = None
          then (case dealloc_list s1 (Some la) of
                  None \<Rightarrow> None
                | Some (Inl e) \<Rightarrow> Some (Inl e)
                | Some (Inr s2) \<Rightarrow> Some (Inr (error_code ALLOC_FAIL, s2)))
          else (case insert_end s1 (Some la) new_node of
                  Inl e \<Rightarrow> Some (Inl e)
                | Inr (_, s2) \<Rightarrow> init_loop s2 (Some la) arr (int m + 1) (int n)))"
    by (subst init_loop.simps) (use m t in simp)
  consider (node) "as = []" | (string) a where "as = [a]"
    | (more) a d as' where "as = a # d # as'"
    by (cases as; cases "tl as") auto
  then show ?case
  proof cases
    case node
    define s1 where "s1 = print_error ALLOC_FAIL (s\<lparr>malloc_plan := rest\<rparr>)"
    have mk: "make_node s (Some t) = Inr (None, s1)"
      using Suc.prems(5) node by (simp add: make_node_def malloc_node_def malloc_def s1_def)
    have wf1: "wf_list s1 la xs"
      by (rule wf_list_same_heap [OF wf]) (simp_all add: s1_def print_error_def)
    from dealloc_list_wf [OF wf1] obtain s' where s': "dealloc_list s1 (Some la) = Some (Inr s')"
      "\<forall>a. node_mem s' a = (if a \<in> set xs then None else node_mem s1 a)"
      "\<forall>d. str_mem s' d = (if Some d \<in> data_ptr s1 ` set xs then None else str_mem s1 d)"
      "list_mem s' = list_mem s1" "err_log s' = err_log s1"
      by blast
    have dp: "data_ptr s1 = data_ptr s"
      by (simp add: fun_eq_iff data_ptr_def s1_def print_error_def)
    show ?thesis
      unfolding unroll mk using s' unfolding dp
      by (simp add: s1_def print_error_def)
  next
    case string
    from Suc.prems(5,8) string have p: "malloc_plan s = Some a # None # rest" "\<not> live s a"
      by simp_all
    define s1 where "s1 = s\<lparr>malloc_plan := rest, err_log := err_log s @ [ALLOC_FAIL],
        node_mem := (node_mem s)(a := None)\<rparr>"
    have mk: "make_node s (Some t) = Inr (None, s1)"
      using p by (simp add: make_node_def malloc_node_def malloc_str_def malloc_def wr_node_def
          free_node_def print_error_def s1_def)
    have na: "node_mem s a = None" using p(2) by (simp add: live_def)
    then have nm: "node_mem s1 = node_mem s" by (auto simp: s1_def fun_eq_iff)
    have wf1: "wf_list s1 la xs"
      by (rule wf_list_same_heap [OF wf _ nm]) (simp_all add: s1_def)
    from dealloc_list_wf [OF wf1] obtain s' where s': "dealloc_list s1 (Some la) = Some (Inr s')"
      "\<forall>a. node_mem s' a = (if a \<in> set xs then None else node_mem s1 a)"
      "\<forall>d. str_mem s' d = (if Some d \<in> data_ptr s1 ` set xs then None else str_mem s1 d)"
      "list_mem s' = list_mem s1" "err_log s' = err_log s1"
      by blast
    have dp: "data_ptr s1 = data_ptr s"
      by (simp add: fun_eq_iff data_ptr_def nm)
    show ?thesis
      unfolding unroll mk using s' unfolding dp nm
      by (simp add: s1_def)
  next
    case more
    from Suc.prems(5,7,8) more have p: "malloc_plan s = Some a # Some d # map Some as' @ None # rest"
      "\<not> live s a" "\<not> live s d" "a \<noteq> d"
      and as': "distinct as'" "a \<notin> set as'" "d \<notin> set as'" "list_all (\<lambda>a. \<not> live s a) as'"
      by auto
    from init_step [OF wf p, of t] obtain s1 s2 where
      mk: "make_node s (Some t) = Inr (Some a, s1)"
      and ie: "insert_end s1 (Some la) (Some a) = Inr (0, s2)"
      and wf2: "wf_list s2 la (xs @ [a])"
      and pl2: "malloc_plan s2 = map Some as' @ None # rest" and el2: "err_log s2 = err_log s"
      and live2: "\<forall>b. live s2 b \<longleftrightarrow> live s b \<or> b = a \<or> b = d"
      and fr2: "\<forall>b. b \<notin> set xs \<longrightarrow> b \<noteq> a \<longrightarrow> node_mem s2 b = node_mem s b"
      and st2: "str_mem s2 = (str_mem s)(d \<mapsto> t)"
      and img2: "data_ptr s2 ` set (xs @ [a]) = insert (Some d) (data_ptr s ` set xs)"
      by blast
    have rest': "list_all (\<lambda>x. x \<noteq> None) (take k (drop (Suc m) arr))"
      using Suc.prems(4) unfolding tk0 by simp
    have len': "length as' < 2 * k" using Suc.prems(6) more by simp
    have nl: "list_all (\<lambda>a. \<not> live s2 a) as'"
      using as' live2 by (auto simp: list_all_iff)
    from Suc.prems(2) have mk': "Suc m + k = n" by simp
    from Suc.IH [OF wf2 mk' Suc.prems(3) rest' pl2 len' as'(1) nl]
    obtain s' where s': "init_loop s2 (Some la) arr (int (Suc m)) (int n) = Some (Inr (0, s'))"
      "\<forall>b. node_mem s' b = (if b \<in> set (xs @ [a]) then None else node_mem s2 b)"
      "\<forall>e. str_mem s' e = (if Some e \<in> data_ptr s2 ` set (xs @ [a]) then None else str_mem s2 e)"
      "err_log s' = err_log s2 @ [ALLOC_FAIL]"
      by blast
    have na: "node_mem s a = None" "str_mem s d = None" using p(2,3) by (simp_all add: live_def)
    have A: "\<forall>b. node_mem s' b = (if b \<in> set xs then None else node_mem s b)"
      using s'(2) fr2 na by auto
    have B: "\<forall>e. str_mem s' e = (if Some e \<in> data_ptr s ` set xs then None else str_mem s e)"
      using s'(3) na unfolding img2 st2 by auto
    have e: "int (Suc m) = int m + 1" by simp
    show ?thesis
      unfolding unroll mk using ie s'(1) [unfolded e] A B s'(4) el2
      by simp
  qed
qed


lemma init_loop_code_zero:
  "init_loop s list arr i n = Some (Inr (c, s')) \<Longrightarrow> c = 0"
proof (induction s list arr i n rule: init_loop.induct)
  case (1 s list arr i data_len)
  from "1.prems" show ?case
    by (subst (asm) init_loop.simps)
       (auto split: if_splits sum.splits option.splits prod.splits dest: "1.IH")
qed

section \<open>Properties of the operations\<close>

lemma demo_mem_wf: "wf_list demo_mem 0 [2, 3, 4]"
  by (simp add: wf_list_def demo_mem_def owns_def data_ptr_def str_of_def lastp_def)

lemma wf_list_last:
  assumes "wf_list s la (ys @ x # zs)"
  shows "(last_of s la = Some x) = (zs = [])"
proof -
  from assms obtain l where l: "list_mem s la = Some l" "last_ptr l = lastp (ys @ x # zs) None"
    and dist: "distinct (ys @ x # zs)"
    unfolding wf_list_iff by blast
  show ?thesis
  proof (cases zs rule: rev_cases)
    case Nil
    with l show ?thesis by (simp add: last_of_def lastp_append lastp_Cons)
  next
    case (snoc zs' z)
    with dist have "z \<noteq> x" by auto
    with l snoc show ?thesis
      using lastp_simps(2) [of "ys @ x # zs'" z None] by (simp add: last_of_def)
  qed
qed

text \<open>
  C4. In a list that satisfies the invariants, inserting a live node \<open>y\<close> that is not in
  the chain after a member \<open>x\<close> succeeds and makes \<open>x.next = y\<close> and \<open>y.prev = x\<close>;
  when \<open>x\<close> was the tail the list's \<open>last\<close> becomes \<open>y\<close>, and otherwise
  \<open>y.next.prev = y\<close>.
\<close>

theorem insert_after_links:
  assumes "wf_list s la xs" "x \<in> set xs" "node_mem s y \<noteq> None" "y \<notin> set xs"
  shows "\<exists>s'. insert_after s (Some la) (Some x) (Some y) = Inr (0, s') \<and>
     next_of s' (Some x) = Some y \<and> prev_of s' (Some y) = Some x \<and>
     (if last_of s la = Some x then last_of s' la = Some y
      else prev_of s' (next_of s' (Some y)) = Some y)"
proof -
  from assms(2) obtain ys zs where xs: "xs = ys @ x # zs" by (auto dest: split_list)
  note wf = assms(1) [unfolded xs]
  from wf obtain l where l: "list_mem s la = Some l"
    and dist: "distinct (ys @ x # zs)"
    and seg: "dlseg (node_mem s) None (ys @ x # zs) None"
    unfolding wf_list_iff by blast
  from seg obtain nx where nx: "node_mem s x = Some nx" "next nx = hdp zs None"
    and segr: "dlseg (node_mem s) (Some x) zs None"
    unfolding dlseg_mid by blast
  from assms(3) obtain ny where ny: "node_mem s y = Some ny" by auto
  from assms(2,4) have xy: "x \<noteq> y" by auto
  note tail = wf_list_last [OF wf]
  show ?thesis
  proof (cases zs)
    case Nil
    with nx have "next nx = None" by simp
    note eff = insert_after_last_eff [OF l nx(1) this ny xy]
    show ?thesis
      unfolding eff using xy tail Nil
      by (simp add: next_of_def prev_of_def last_of_def rd_node_def)
  next
    case (Cons z zs')
    with nx have nxz: "next nx = Some z" by simp
    from segr Cons obtain nz where z: "node_mem s z = Some nz"
      by (auto split: option.splits)
    from dist Cons assms(4) xs have neq: "z \<noteq> y" "x \<noteq> z" by auto
    note eff = insert_after_mid_eff [OF nx(1) nxz z ny xy neq]
    show ?thesis
      unfolding eff using xy neq tail Cons
      by (simp add: next_of_def prev_of_def rd_node_def)
  qed
qed

theorem insert_after_links_witness:
  "wf_list demo_mem 0 [2, 3, 4] \<and>
   (\<exists>s'. insert_after demo_mem (Some 0) (Some 3) (Some 5) = Inr (0, s') \<and>
      next_of s' (Some 3) = Some 5 \<and> prev_of s' (Some 5) = Some 3 \<and>
      prev_of s' (next_of s' (Some 5)) = Some 5) \<and>
   (\<exists>s'. insert_after demo_mem (Some 0) (Some 4) (Some 5) = Inr (0, s') \<and>
      next_of s' (Some 4) = Some 5 \<and> prev_of s' (Some 5) = Some 4 \<and>
      last_of s' 0 = Some 5)"
proof -
  have a: "(3::nat) \<in> set [2, 3, 4]" "(4::nat) \<in> set [2, 3, 4]" by simp_all
  have b: "node_mem demo_mem 5 \<noteq> None" "5 \<notin> set [2, 3, 4::nat]" by (simp_all add: demo_mem_def)
  have c: "last_of demo_mem 0 = Some 4" by (simp add: last_of_def demo_mem_def)
  from insert_after_links [OF demo_mem_wf a(1) b] insert_after_links [OF demo_mem_wf a(2) b]
  show ?thesis using demo_mem_wf c by simp
qed

lemma insert_after_frame:
  assumes "node_mem s x = Some nx" "next nx = Some z" "node_mem s z \<noteq> None"
    "node_mem s y \<noteq> None"
  shows "\<exists>s'. insert_after s (Some la) (Some x) (Some y) = Inr (0, s') \<and> list_mem s' = list_mem s"
proof -
  from assms obtain nz ny where "node_mem s z = Some nz" "node_mem s y = Some ny" by auto
  with assms(1,2) show ?thesis
    by (cases "x = y"; cases "z = y"; cases "z = x")
       (simp_all add: insert_after_def wr_node_def rd_node_def)
qed

lemma insert_before_frame:
  assumes "node_mem s x = Some nx" "prev nx = Some z" "node_mem s z \<noteq> None"
    "node_mem s y \<noteq> None"
  shows "\<exists>s'. insert_before s (Some la) (Some x) (Some y) = Inr (0, s') \<and> list_mem s' = list_mem s"
proof -
  from assms obtain nz ny where "node_mem s z = Some nz" "node_mem s y = Some ny" by auto
  with assms(1,2) show ?thesis
    by (cases "x = y"; cases "z = y"; cases "z = x")
       (simp_all add: insert_before_def wr_node_def rd_node_def)
qed

lemma wf_list_neighbours:
  assumes "wf_list s la xs" "x \<in> set xs"
  shows "\<exists>nx. node_mem s x = Some nx \<and>
     (\<forall>z. next nx = Some z \<longrightarrow> z \<in> set xs \<and> prev_of s (Some z) = Some x) \<and>
     (\<forall>z. prev nx = Some z \<longrightarrow> z \<in> set xs \<and> next_of s (Some z) = Some x)"
proof -
  from assms(2) obtain ys zs where xs: "xs = ys @ x # zs" by (auto dest: split_list)
  from assms(1) have seg: "dlseg (node_mem s) None (ys @ x # zs) None"
    unfolding wf_list_iff xs by blast
  from seg obtain nx where nx: "node_mem s x = Some nx" "prev nx = lastp ys None"
      "next nx = hdp zs None"
    and segl: "dlseg (node_mem s) None ys (Some x)"
    and segr: "dlseg (node_mem s) (Some x) zs None"
    unfolding dlseg_mid by blast
  have a: "\<forall>z. next nx = Some z \<longrightarrow> z \<in> set xs \<and> prev_of s (Some z) = Some x"
    using segr nx xs by (cases zs) (auto simp: prev_of_def rd_node_def split: option.splits)
  have b: "\<forall>z. prev nx = Some z \<longrightarrow> z \<in> set xs \<and> next_of s (Some z) = Some x"
    using segl nx xs
    by (cases ys rule: rev_cases) (auto simp: next_of_def rd_node_def dlseg_snoc)
  from nx(1) a b show ?thesis by blast
qed

text \<open>
  C9. In a list that satisfies the invariants, inserting a live node after a member that
  has a successor, or before a member that has a predecessor, succeeds and leaves the
  list's \<open>head\<close> and \<open>last\<close> as they were.
\<close>

theorem insert_keeps_ends:
  assumes "wf_list s la xs" "x \<in> set xs" "node_mem s y \<noteq> None"
  shows "(next_of s (Some x) \<noteq> None \<longrightarrow>
           (\<exists>s'. insert_after s (Some la) (Some x) (Some y) = Inr (0, s') \<and>
              head_of s' la = head_of s la \<and> last_of s' la = last_of s la)) \<and>
         (prev_of s (Some x) \<noteq> None \<longrightarrow>
           (\<exists>s'. insert_before s (Some la) (Some x) (Some y) = Inr (0, s') \<and>
              head_of s' la = head_of s la \<and> last_of s' la = last_of s la))"
proof -
  from wf_list_neighbours [OF assms(1,2)] obtain nx where nx: "node_mem s x = Some nx"
    and nb: "\<And>z. next nx = Some z \<Longrightarrow> z \<in> set xs" "\<And>z. prev nx = Some z \<Longrightarrow> z \<in> set xs"
    by blast
  have after: "\<exists>s'. insert_after s (Some la) (Some x) (Some y) = Inr (0, s') \<and>
      head_of s' la = head_of s la \<and> last_of s' la = last_of s la"
    if "next_of s (Some x) \<noteq> None"
  proof -
    from that nx obtain z where z: "next nx = Some z" by (auto simp: next_of_def rd_node_def)
    from nb(1) [OF z] have "node_mem s z \<noteq> None" by (rule wf_list_live [OF assms(1)])
    from insert_after_frame [OF nx z this assms(3), of la] obtain s' where
      "insert_after s (Some la) (Some x) (Some y) = Inr (0, s')" "list_mem s' = list_mem s"
      by blast
    then show ?thesis by (simp add: head_of_def last_of_def)
  qed
  have before: "\<exists>s'. insert_before s (Some la) (Some x) (Some y) = Inr (0, s') \<and>
      head_of s' la = head_of s la \<and> last_of s' la = last_of s la"
    if "prev_of s (Some x) \<noteq> None"
  proof -
    from that nx obtain z where z: "prev nx = Some z" by (auto simp: prev_of_def rd_node_def)
    from nb(2) [OF z] have "node_mem s z \<noteq> None" by (rule wf_list_live [OF assms(1)])
    from insert_before_frame [OF nx z this assms(3), of la] obtain s' where
      "insert_before s (Some la) (Some x) (Some y) = Inr (0, s')" "list_mem s' = list_mem s"
      by blast
    then show ?thesis by (simp add: head_of_def last_of_def)
  qed
  from after before show ?thesis by blast
qed

theorem insert_keeps_ends_witness:
  "wf_list demo_mem 0 [2, 3, 4] \<and> next_of demo_mem (Some 3) \<noteq> None \<and>
   prev_of demo_mem (Some 3) \<noteq> None \<and>
   (\<exists>s'. insert_after demo_mem (Some 0) (Some 3) (Some 5) = Inr (0, s') \<and>
      head_of s' 0 = Some 2 \<and> last_of s' 0 = Some 4) \<and>
   (\<exists>s'. insert_before demo_mem (Some 0) (Some 3) (Some 5) = Inr (0, s') \<and>
      head_of s' 0 = Some 2 \<and> last_of s' 0 = Some 4)"
proof -
  have a: "(3::nat) \<in> set [2, 3, 4]" by simp
  have b: "node_mem demo_mem 5 \<noteq> None" by (simp add: demo_mem_def)
  have c: "next_of demo_mem (Some 3) \<noteq> None" "prev_of demo_mem (Some 3) \<noteq> None"
    "head_of demo_mem 0 = Some 2" "last_of demo_mem 0 = Some 4"
    by (simp_all add: next_of_def prev_of_def head_of_def last_of_def rd_node_def demo_mem_def)
  from insert_keeps_ends [OF demo_mem_wf a b] c
  show ?thesis using demo_mem_wf by simp
qed

lemma solo_mem_wf: "wf_list solo_mem 0 [2]"
  by (simp add: wf_list_def solo_mem_def owns_def data_ptr_def str_of_def lastp_def)

lemma wf_list_unique: "wf_list s la xs \<Longrightarrow> wf_list s la ys \<Longrightarrow> xs = ys"
  unfolding wf_list_iff by (auto intro: dlseg_unique)

lemma wf_list_ends:
  assumes "wf_list s la xs"
  shows "head_of s la = hdp xs None" "last_of s la = lastp xs None"
  using assms unfolding wf_list_iff by (auto simp: head_of_def last_of_def)

text \<open>
  C5. In a list that satisfies the invariants with chain \<open>xs\<close>, removing a member \<open>x\<close>
  succeeds, frees the node, and leaves a list that satisfies the invariants with the
  chain \<open>xs\<close> without \<open>x\<close>, one element shorter; when \<open>x\<close> was the only element,
  \<open>head\<close> and \<open>last\<close> are both absent afterwards. (By \<open>wf_list_unique\<close> the chain of
  a list, and so its element count, is determined by the memory.)
\<close>

theorem remove_node_restores:
  assumes "wf_list s la xs" "x \<in> set xs"
  shows "\<exists>s'. remove_node s (Some la) (Some x) = Inr (0, s') \<and>
     wf_list s' la (remove1 x xs) \<and> length (remove1 x xs) + 1 = length xs \<and>
     node_mem s' x = None \<and>
     (length xs = 1 \<longrightarrow> head_of s' la = None \<and> last_of s' la = None)"
proof -
  from assms(2) obtain ys zs where xs: "xs = ys @ x # zs" by (auto dest: split_list)
  from assms(1) have "distinct xs" unfolding wf_list_iff by blast
  with xs have "x \<notin> set ys" by auto
  then have r: "remove1 x xs = ys @ zs" unfolding xs by (simp add: remove1_append)
  from remove_node_wf [OF assms(1) [unfolded xs]] obtain s' where
    s': "remove_node s (Some la) (Some x) = Inr (0, s')" "wf_list s' la (ys @ zs)"
    "node_mem s' x = None"
    by blast
  have "head_of s' la = None \<and> last_of s' la = None" if "length xs = 1"
  proof -
    from that xs have "ys @ zs = []" by simp
    with wf_list_ends [OF s'(2)] show ?thesis by simp
  qed
  with s' r xs show ?thesis by auto
qed

theorem remove_node_restores_witness:
  "wf_list demo_mem 0 [2, 3, 4] \<and>
   (\<exists>s'. remove_node demo_mem (Some 0) (Some 3) = Inr (0, s') \<and> wf_list s' 0 [2, 4] \<and>
      node_mem s' 3 = None) \<and>
   wf_list solo_mem 0 [2] \<and>
   (\<exists>s'. remove_node solo_mem (Some 0) (Some 2) = Inr (0, s') \<and> wf_list s' 0 [] \<and>
      node_mem s' 2 = None \<and> head_of s' 0 = None \<and> last_of s' 0 = None)"
proof -
  have a: "(3::nat) \<in> set [2, 3, 4]" "(2::nat) \<in> set [2]" by simp_all
  from remove_node_restores [OF demo_mem_wf a(1)] remove_node_restores [OF solo_mem_wf a(2)]
  show ?thesis using demo_mem_wf solo_mem_wf by auto
qed

text \<open>
  C7. On a list that satisfies the invariants, \<open>find_node\<close> returns the first node of
  the chain, in head-to-tail order, whose stored string equals the target, and \<open>NULL\<close>
  exactly when no stored string equals it (in particular on the empty list); it leaves the
  memory as it was. With an absent list or an absent target it returns \<open>NULL\<close> as well, the
  value it returns for a string that is not in the list.
\<close>

theorem find_node_first_match:
  assumes "wf_list s la xs"
  shows "find_node s (Some la) (Some t) =
           Some (Inr (List.find (\<lambda>a. str_of s a = Some t) xs, s)) \<and>
         (List.find (\<lambda>a. str_of s a = Some t) xs = None) = (Some t \<notin> set (contents s xs)) \<and>
         find_node s None (Some t) = Some (Inr (None, print_error NULL_PTR s)) \<and>
         find_node s (Some la) None = Some (Inr (None, print_error NULL_PTR s))"
proof -
  have "(List.find (\<lambda>a. str_of s a = Some t) xs = None) = (Some t \<notin> set (contents s xs))"
    by (auto simp: find_None_iff contents_def image_iff)
  with find_node_wf [OF assms] find_node_absent show ?thesis by simp
qed

theorem find_node_first_match_witness:
  "wf_list demo_mem 0 [2, 3, 4] \<and>
   find_node demo_mem (Some 0) (Some ''a'') = Some (Inr (Some 2, demo_mem)) \<and>
   find_node demo_mem (Some 0) (Some ''b'') = Some (Inr (Some 3, demo_mem)) \<and>
   find_node demo_mem (Some 0) (Some ''c'') = Some (Inr (None, demo_mem)) \<and>
   find_node demo_mem None (Some ''a'') = Some (Inr (None, print_error NULL_PTR demo_mem)) \<and>
   find_node demo_mem (Some 0) None = Some (Inr (None, print_error NULL_PTR demo_mem))"
proof -
  have s: "str_of demo_mem 2 = Some ''a''" "str_of demo_mem 3 = Some ''b''"
    "str_of demo_mem 4 = Some ''a''"
    by (simp_all add: str_of_def data_ptr_def demo_mem_def)
  from find_node_first_match [OF demo_mem_wf, of "''a''"]
    find_node_first_match [OF demo_mem_wf, of "''b''"]
    find_node_first_match [OF demo_mem_wf, of "''c''"]
  show ?thesis using demo_mem_wf by (simp add: s)
qed

text \<open>
  C10. When the string sequence is absent or the count is negative, \<open>init_list\<close> returns a
  non-zero error code without touching the list argument: list headers, nodes, strings
  and the allocator are as they were (only the diagnostic is printed), whatever the list
  pointer is.
\<close>

theorem init_list_rejects_early:
  assumes "data' = None \<or> data_len < 0"
  shows "\<exists>e. e \<in> {NULL_PTR, LEN_INVALID} \<and> error_code e \<noteq> 0 \<and>
           init_list s list data' data_len = Some (Inr (error_code e, print_error e s)) \<and>
           list_mem (print_error e s) = list_mem s \<and> node_mem (print_error e s) = node_mem s \<and>
           str_mem (print_error e s) = str_mem s \<and>
           malloc_plan (print_error e s) = malloc_plan s"
proof (cases data')
  case None
  then show ?thesis
    by (intro exI [of _ NULL_PTR]) (simp add: init_list_def print_error_def)
next
  case (Some arr)
  with assms show ?thesis
    by (intro exI [of _ LEN_INVALID]) (simp add: init_list_def print_error_def)
qed

theorem init_list_rejects_early_witness:
  "init_list demo_mem (Some 0) None DATA_LEN =
     Some (Inr (2, demo_mem\<lparr>err_log := [NULL_PTR]\<rparr>)) \<and>
   init_list demo_mem (Some 0) (Some TEST_DATA) (- DATA_LEN) =
     Some (Inr (1, demo_mem\<lparr>err_log := [LEN_INVALID]\<rparr>))"
proof -
  have a: "(None :: string option list option) = None \<or> DATA_LEN < 0"
    "Some TEST_DATA = None \<or> - DATA_LEN < 0"
    by (simp_all add: DATA_LEN_def TEST_DATA_def)
  from init_list_rejects_early [OF a(1), of demo_mem "Some 0"]
    init_list_rejects_early [OF a(2), of demo_mem "Some 0"]
  show ?thesis
    by (auto simp: print_error_def demo_mem_def init_list_def DATA_LEN_def TEST_DATA_def)
qed

text \<open>
  C3, as stated, fails: \<open>dealloc_list\<close> on the one-element list of \<open>solo_mem\<close> frees the
  node and its string and leaves \<open>head\<close> and \<open>last\<close> pointing to the freed node.
\<close>

theorem dealloc_list_keeps_header:
  "wf_list solo_mem 0 [2] \<and>
   dealloc_list solo_mem (Some 0) =
     Some (Inr (solo_mem\<lparr>node_mem := Map.empty, str_mem := Map.empty\<rparr>)) \<and>
   head_of (solo_mem\<lparr>node_mem := Map.empty, str_mem := Map.empty\<rparr>) 0 = Some 2 \<and>
   last_of (solo_mem\<lparr>node_mem := Map.empty, str_mem := Map.empty\<rparr>) 0 = Some 2"
proof -
  have "dealloc_list solo_mem (Some 0) = Some (Inr (solo_mem\<lparr>node_mem := Map.empty, str_mem := Map.empty\<rparr>))"
    apply (simp add: dealloc_list_def rd_list_def solo_mem_def)
    apply (subst dealloc_loop.simps)
    apply (simp add: rd_node_def free_str_def free_node_def)
    apply (subst dealloc_loop.simps)
    apply simp
    done
  then show ?thesis
    using solo_mem_wf by (simp add: head_of_def last_of_def solo_mem_def)
qed

text \<open>
  C3, amended. On a list that satisfies the invariants, \<open>dealloc_list\<close> returns, having
  freed every node of the chain and the string each one owns and nothing else; it does
  not write to the list header, so \<open>head\<close> and \<open>last\<close> keep their values. On an absent
  list it does nothing.
\<close>

theorem dealloc_list_releases:
  assumes "wf_list s la xs"
  shows "(\<exists>s'. dealloc_list s (Some la) = Some (Inr s') \<and>
     list_all (\<lambda>a. node_mem s' a = None \<and>
                   (case data_ptr s a of None \<Rightarrow> False | Some d \<Rightarrow> str_mem s' d = None)) xs \<and>
     (\<forall>a. a \<notin> set xs \<longrightarrow> node_mem s' a = node_mem s a) \<and>
     (\<forall>d. Some d \<notin> data_ptr s ` set xs \<longrightarrow> str_mem s' d = str_mem s d) \<and>
     list_mem s' = list_mem s \<and> head_of s' la = head_of s la \<and> last_of s' la = last_of s la) \<and>
     dealloc_list s None = Some (Inr s)"
proof -
  from dealloc_list_wf [OF assms] obtain s' where s': "dealloc_list s (Some la) = Some (Inr s')"
    "\<forall>a. node_mem s' a = (if a \<in> set xs then None else node_mem s a)"
    "\<forall>d. str_mem s' d = (if Some d \<in> data_ptr s ` set xs then None else str_mem s d)"
    "list_mem s' = list_mem s"
    by blast
  have "node_mem s' a = None \<and> (case data_ptr s a of None \<Rightarrow> False | Some d \<Rightarrow> str_mem s' d = None)"
    if "a \<in> set xs" for a
  proof -
    from wf_list_str_live [OF assms that] obtain d where d: "data_ptr s a = Some d" by blast
    with that have "Some d \<in> data_ptr s ` set xs" by force
    with s'(2,3) that d show ?thesis by simp
  qed
  then have "list_all (\<lambda>a. node_mem s' a = None \<and> (case data_ptr s a of None \<Rightarrow> False | Some d \<Rightarrow> str_mem s' d = None)) xs"
    by (simp add: list_all_iff)
  with s' have "\<exists>s'. dealloc_list s (Some la) = Some (Inr s') \<and>
     list_all (\<lambda>a. node_mem s' a = None \<and>
                   (case data_ptr s a of None \<Rightarrow> False | Some d \<Rightarrow> str_mem s' d = None)) xs \<and>
     (\<forall>a. a \<notin> set xs \<longrightarrow> node_mem s' a = node_mem s a) \<and>
     (\<forall>d. Some d \<notin> data_ptr s ` set xs \<longrightarrow> str_mem s' d = str_mem s d) \<and>
     list_mem s' = list_mem s \<and> head_of s' la = head_of s la \<and> last_of s' la = last_of s la"
    by (intro exI [of _ s']) (simp add: head_of_def last_of_def)
  then show ?thesis by (simp add: dealloc_list_def)
qed

theorem dealloc_list_releases_witness:
  "wf_list demo_mem 0 [2, 3, 4] \<and>
   (\<exists>s'. dealloc_list demo_mem (Some 0) = Some (Inr s') \<and>
      node_mem s' 2 = None \<and> node_mem s' 3 = None \<and> node_mem s' 4 = None \<and>
      str_mem s' 12 = None \<and> str_mem s' 13 = None \<and> str_mem s' 14 = None \<and>
      node_mem s' 5 = node_mem demo_mem 5 \<and> str_mem s' 15 = Some ''z'' \<and>
      head_of s' 0 = Some 2 \<and> last_of s' 0 = Some 4) \<and>
   dealloc_list demo_mem None = Some (Inr demo_mem)"
proof -
  have d: "data_ptr demo_mem 2 = Some 12" "data_ptr demo_mem 3 = Some 13"
    "data_ptr demo_mem 4 = Some 14"
    by (simp_all add: data_ptr_def demo_mem_def)
  have h: "head_of demo_mem 0 = Some 2" "last_of demo_mem 0 = Some 4" "str_mem demo_mem 15 = Some ''z''"
    by (simp_all add: head_of_def last_of_def demo_mem_def)
  from dealloc_list_releases [OF demo_mem_wf]
  show ?thesis using demo_mem_wf by (auto simp: d h)
qed

lemma live_list_upd:
  "list_mem s la \<noteq> None \<Longrightarrow> live (s\<lparr>list_mem := (list_mem s)(la \<mapsto> l)\<rparr>) = live s"
  by (auto simp: live_def fun_eq_iff)

lemma fresh_plan_cong:
  "live s' = live s \<Longrightarrow> malloc_plan s' = malloc_plan s \<Longrightarrow> fresh_plan s' k = fresh_plan s k"
  by (simp add: fresh_plan_def cong: option.case_cong)

text \<open>
  C6, amended. When the list pointer is valid, the sequence is present and holds at
  least \<open>n\<close> present strings, \<open>n\<close> is not negative, and the \<open>2 * n\<close> allocations of
  the call succeed, \<open>init_list\<close> returns 0 and leaves a list that satisfies the
  invariants, with exactly \<open>n\<close> nodes that hold the first \<open>n\<close> strings in input order.
\<close>

theorem init_list_builds:
  assumes "list_mem s la \<noteq> None" "0 \<le> n" "nat n \<le> length arr"
    "list_all (\<lambda>x. x \<noteq> None) (take (nat n) arr)" "fresh_plan s (2 * nat n)"
  shows "\<exists>s' xs. init_list s (Some la) (Some arr) n = Some (Inr (0, s')) \<and>
     wf_list s' la xs \<and> length xs = nat n \<and> contents s' xs = take (nat n) arr"
proof -
  from assms(1) obtain l where l: "list_mem s la = Some l" by auto
  define s0 where "s0 = s\<lparr>list_mem := (list_mem s)(la \<mapsto> l\<lparr>head := None, last_ptr := None\<rparr>)\<rparr>"
  have start: "init_list s (Some la) (Some arr) n = init_loop s0 (Some la) arr (int 0) (int (nat n))"
    using assms(2) l by (simp add: init_list_def wr_list_def s0_def)
  have wf0: "wf_list s0 la []"
    by (simp add: wf_list_def s0_def owns_def)
  have "live s0 = live s" unfolding s0_def using assms(1) by (rule live_list_upd)
  then have "fresh_plan s0 (2 * nat n) = fresh_plan s (2 * nat n)"
    by (rule fresh_plan_cong) (simp add: s0_def)
  with assms(5) have fp: "fresh_plan s0 (2 * nat n)" by simp
  from init_loop_ok [OF wf0 _ assms(3) _ fp, of 0] assms(4)
  obtain s' ys where "init_loop s0 (Some la) arr (int 0) (int (nat n)) = Some (Inr (0, s'))"
    "wf_list s' la ys" "length ys = nat n" "contents s' ys = take (nat n) arr"
    by (auto simp: contents_def)
  with start show ?thesis by auto
qed

theorem init_list_builds_witness:
  "fresh_plan (demo_mem\<lparr>malloc_plan := map Some [20, 21, 22, 23]\<rparr>) 4 \<and>
   (\<exists>s' xs. init_list (demo_mem\<lparr>malloc_plan := map Some [20, 21, 22, 23]\<rparr>) (Some 0)
        (Some TEST_DATA) 2 = Some (Inr (0, s')) \<and>
      wf_list s' 0 xs \<and> length xs = 2 \<and> contents s' xs = [Some ''ABC0'', Some ''ABC1''])"
proof -
  let ?s = "demo_mem\<lparr>malloc_plan := map Some [20, 21, 22, 23]\<rparr>"
  have a: "list_mem ?s 0 \<noteq> None" "(0::int) \<le> 2" "nat 2 \<le> length TEST_DATA"
    "list_all (\<lambda>x. x \<noteq> None) (take (nat 2) TEST_DATA)"
    by (simp_all add: demo_mem_def TEST_DATA_def)
  have b: "fresh_plan ?s 4"
    by (simp add: fresh_plan_def demo_mem_def live_def)
  then have b': "fresh_plan ?s (2 * nat 2)" by simp
  have c: "take (nat 2) TEST_DATA = [Some ''ABC0'', Some ''ABC1'']"
    by (simp add: TEST_DATA_def)
  from init_list_builds [OF a b'] b show ?thesis
    unfolding c by simp
qed

text \<open>
  C6, as stated, fails: the sequence is present and the count is 1, but the first
  allocation fails; \<open>init_list\<close> prints \<open>ALLOC_FAIL\<close> and leaves an empty list.
\<close>

theorem init_list_alloc_failure_empty:
  "init_list fail_mem (Some 0) (Some TEST_DATA) 1 =
     Some (Inr (0, fail_mem\<lparr>list_mem := [0 \<mapsto> \<lparr>head = None, last_ptr = None\<rparr>],
                           malloc_plan := [], err_log := [ALLOC_FAIL]\<rparr>)) \<and>
   head_of (fail_mem\<lparr>list_mem := [0 \<mapsto> \<lparr>head = None, last_ptr = None\<rparr>],
                      malloc_plan := [], err_log := [ALLOC_FAIL]\<rparr>) 0 = None"
  by (simp add: init_list_def fail_mem_def TEST_DATA_def wr_list_def init_loop.simps
      make_node_def malloc_node_def malloc_def print_error_def dealloc_list_def rd_list_def
      dealloc_loop.simps head_of_def)

lemma init_list_rollback:
  assumes "list_mem s la \<noteq> None" "0 \<le> n" "nat n \<le> length arr"
    "list_all (\<lambda>x. x \<noteq> None) (take (nat n) arr)"
    "malloc_plan s = map Some as @ None # rest" "length as < 2 * nat n" "distinct as"
    "list_all (\<lambda>a. \<not> live s a) as"
  shows "\<exists>s'. init_list s (Some la) (Some arr) n = Some (Inr (0, s')) \<and>
     node_mem s' = node_mem s \<and> str_mem s' = str_mem s \<and>
     err_log s' = err_log s @ [ALLOC_FAIL]"
proof -
  from assms(1) obtain l where l: "list_mem s la = Some l" by auto
  define s0 where "s0 = s\<lparr>list_mem := (list_mem s)(la \<mapsto> l\<lparr>head := None, last_ptr := None\<rparr>)\<rparr>"
  have start: "init_list s (Some la) (Some arr) n = init_loop s0 (Some la) arr (int 0) (int (nat n))"
    using assms(2) l by (simp add: init_list_def wr_list_def s0_def)
  have wf0: "wf_list s0 la []"
    by (simp add: wf_list_def s0_def owns_def)
  have "live s0 = live s" unfolding s0_def using assms(1) by (rule live_list_upd)
  with assms(8) have nl: "list_all (\<lambda>a. \<not> live s0 a) as" by simp
  have pl: "malloc_plan s0 = map Some as @ None # rest" using assms(5) by (simp add: s0_def)
  from init_loop_rollback [OF wf0 _ assms(3) _ pl assms(6,7) nl, of 0] assms(4)
  obtain s' where "init_loop s0 (Some la) arr (int 0) (int (nat n)) = Some (Inr (0, s'))"
    "\<forall>b. node_mem s' b = node_mem s0 b" "\<forall>e. str_mem s' e = str_mem s0 e"
    "err_log s' = err_log s0 @ [ALLOC_FAIL]"
    by auto
  with start show ?thesis by (auto simp: s0_def fun_eq_iff)
qed

lemma init_list_code_zero:
  "init_list s list (Some arr) n = Some (Inr (c, s')) \<Longrightarrow> 0 \<le> n \<Longrightarrow> c = 0"
  by (auto simp: init_list_def split: sum.splits dest: init_loop_code_zero)

text \<open>
  C1. The second node cannot be completed (the fourth allocation fails): \<open>init_list\<close>
  frees what it built and returns \<open>ALLOC_FAIL\<close>, which is the integer 0, the value it
  returns on success. \<open>head\<close> and \<open>last\<close> are left pointing to the freed first node.
\<close>

theorem init_list_alloc_fail_returns_zero:
  "init_list part_mem (Some 0) (Some TEST_DATA) DATA_LEN =
     Some (Inr (error_code ALLOC_FAIL,
                part_mem\<lparr>list_mem := [0 \<mapsto> \<lparr>head = Some 2, last_ptr = Some 2\<rparr>],
                          malloc_plan := [], err_log := [ALLOC_FAIL]\<rparr>)) \<and>
   error_code ALLOC_FAIL = 0"
  by (simp add: init_list_def part_mem_def TEST_DATA_def DATA_LEN_def wr_list_def init_loop.simps
      make_node_def malloc_node_def malloc_str_def malloc_def live_def print_error_def
      wr_node_def strcpy_def free_node_def free_str_def rd_node_def
      insert_end_def insert_front_def
      dealloc_list_def rd_list_def dealloc_loop.simps)

text \<open>What the operations do with an absent argument that they check.\<close>

lemma null_arguments_rejected:
  "insert_after s None node new_node = Inr (error_code NULL_PTR, print_error NULL_PTR s)"
  "insert_after s list None new_node = Inr (error_code NULL_PTR, print_error NULL_PTR s)"
  "insert_after s list node None = Inr (error_code NULL_PTR, print_error NULL_PTR s)"
  "insert_before s None node new_node = Inr (error_code NULL_PTR, print_error NULL_PTR s)"
  "insert_before s list None new_node = Inr (error_code NULL_PTR, print_error NULL_PTR s)"
  "insert_before s list node None = Inr (error_code NULL_PTR, print_error NULL_PTR s)"
  "insert_front s None new_node = Inr (error_code NULL_PTR, print_error NULL_PTR s)"
  "insert_front s list None = Inr (error_code NULL_PTR, print_error NULL_PTR s)"
  "insert_end s None new_node = Inr (error_code NULL_PTR, print_error NULL_PTR s)"
  "insert_end s list None = Inr (error_code NULL_PTR, print_error NULL_PTR s)"
  "remove_node s None node = Inr (error_code NULL_PTR, print_error NULL_PTR s)"
  "remove_node s list None = Inr (error_code NULL_PTR, print_error NULL_PTR s)"
  "init_list s list None data_len = Some (Inr (error_code NULL_PTR, print_error NULL_PTR s))"
  by (simp_all add: insert_after_def insert_before_def insert_front_def insert_end_def
      remove_node_def init_list_def)

text \<open>
  C2. \<open>init_list\<close> does not check its list argument: with an absent list, a present
  sequence and a count that is not negative it writes through the null pointer.
\<close>

theorem init_list_null_list_faults:
  "init_list demo_mem None (Some TEST_DATA) DATA_LEN = Some (Inl NullDeref)"
  by (simp add: init_list_def DATA_LEN_def wr_list_def)


lemma length_ten:
  assumes "length xs = 10"
  obtains a0 a1 a2 a3 a4 a5 a6 a7 a8 a9 where "xs = [a0, a1, a2, a3, a4, a5, a6, a7, a8, a9]"
proof -
  from assms have "length xs = Suc (Suc (Suc (Suc (Suc (Suc (Suc (Suc (Suc (Suc 0)))))))))"
    by simp
  then show thesis
    using that by (auto simp: length_Suc_conv)
qed

text \<open>
  C8. Starting from any memory with a valid list pointer in which the twenty allocations
  succeed: building the list from \<open>TEST_DATA\<close>, finding \<open>ABC4\<close>, removing the node
  found and searching again gives \<open>NULL\<close>, and the list then holds the other nine
  strings in their original order.
\<close>

theorem round_trip:
  assumes "list_mem s la \<noteq> None" "fresh_plan s 20"
  shows "\<exists>s1 r s2 xs.
     init_list s (Some la) (Some TEST_DATA) DATA_LEN = Some (Inr (0, s1)) \<and>
     find_node s1 (Some la) (Some ''ABC4'') = Some (Inr (Some r, s1)) \<and>
     remove_node s1 (Some la) (Some r) = Inr (0, s2) \<and>
     find_node s2 (Some la) (Some ''ABC4'') = Some (Inr (None, s2)) \<and>
     wf_list s2 la xs \<and>
     contents s2 xs = map Some [''ABC0'', ''ABC1'', ''ABC2'', ''ABC3'', ''ABC5'',
                                ''ABC6'', ''ABC7'', ''ABC8'', ''ABC9'']"
proof -
  have len: "nat DATA_LEN = 10" "0 \<le> DATA_LEN" "nat DATA_LEN \<le> length TEST_DATA"
    "list_all (\<lambda>x. x \<noteq> None) (take (nat DATA_LEN) TEST_DATA)"
    "take 10 TEST_DATA = TEST_DATA"
    by (simp_all add: DATA_LEN_def TEST_DATA_def)
  from assms(2) have "fresh_plan s (2 * nat DATA_LEN)" by (simp add: len)
  from init_list_builds [OF assms(1) len(2,3,4) this] obtain s1 xs1 where
    s1: "init_list s (Some la) (Some TEST_DATA) DATA_LEN = Some (Inr (0, s1))"
    and wf1: "wf_list s1 la xs1" and l1: "length xs1 = 10" and c1: "contents s1 xs1 = TEST_DATA"
    unfolding len by blast
  from l1 obtain a0 a1 a2 a3 a4 a5 a6 a7 a8 a9 where
    xs1: "xs1 = [a0, a1, a2, a3] @ a4 # [a5, a6, a7, a8, a9]"
    by (rule length_ten) simp
  from c1 have str: "str_of s1 a0 = Some ''ABC0''" "str_of s1 a1 = Some ''ABC1''"
    "str_of s1 a2 = Some ''ABC2''" "str_of s1 a3 = Some ''ABC3''"
    "str_of s1 a4 = Some ''ABC4''" "str_of s1 a5 = Some ''ABC5''"
    "str_of s1 a6 = Some ''ABC6''" "str_of s1 a7 = Some ''ABC7''"
    "str_of s1 a8 = Some ''ABC8''" "str_of s1 a9 = Some ''ABC9''"
    by (simp_all add: contents_def xs1 TEST_DATA_def)
  have f1: "find_node s1 (Some la) (Some ''ABC4'') = Some (Inr (Some a4, s1))"
    unfolding find_node_wf [OF wf1] by (simp add: xs1 str)
  from remove_node_wf [OF wf1 [unfolded xs1]] obtain s2 where
    s2: "remove_node s1 (Some la) (Some a4) = Inr (0, s2)"
    and wf2: "wf_list s2 la ([a0, a1, a2, a3] @ [a5, a6, a7, a8, a9])"
    and c2: "contents s2 ([a0, a1, a2, a3] @ [a5, a6, a7, a8, a9]) =
             contents s1 ([a0, a1, a2, a3] @ [a5, a6, a7, a8, a9])"
    by blast
  from c2 have c2': "contents s2 ([a0, a1, a2, a3] @ [a5, a6, a7, a8, a9]) =
     map Some [''ABC0'', ''ABC1'', ''ABC2'', ''ABC3'', ''ABC5'', ''ABC6'', ''ABC7'', ''ABC8'', ''ABC9'']"
    by (simp add: contents_def str)
  then have str2: "str_of s2 a0 = Some ''ABC0''" "str_of s2 a1 = Some ''ABC1''"
    "str_of s2 a2 = Some ''ABC2''" "str_of s2 a3 = Some ''ABC3''"
    "str_of s2 a5 = Some ''ABC5''"
    "str_of s2 a6 = Some ''ABC6''" "str_of s2 a7 = Some ''ABC7''"
    "str_of s2 a8 = Some ''ABC8''" "str_of s2 a9 = Some ''ABC9''"
    by (simp_all add: contents_def)
  have f2: "find_node s2 (Some la) (Some ''ABC4'') = Some (Inr (None, s2))"
    unfolding find_node_wf [OF wf2] by (simp add: str2)
  from s1 f1 s2 f2 wf2 c2' show ?thesis by blast
qed

theorem round_trip_witness:
  "fresh_plan (solo_mem\<lparr>malloc_plan := map Some [20 ..< 40]\<rparr>) 20 \<and>
   (\<exists>s1 r s2 xs.
     init_list (solo_mem\<lparr>malloc_plan := map Some [20 ..< 40]\<rparr>) (Some 0) (Some TEST_DATA) DATA_LEN
       = Some (Inr (0, s1)) \<and>
     find_node s1 (Some 0) (Some ''ABC4'') = Some (Inr (Some r, s1)) \<and>
     remove_node s1 (Some 0) (Some r) = Inr (0, s2) \<and>
     find_node s2 (Some 0) (Some ''ABC4'') = Some (Inr (None, s2)) \<and>
     wf_list s2 0 xs \<and>
     contents s2 xs = map Some [''ABC0'', ''ABC1'', ''ABC2'', ''ABC3'', ''ABC5'',
                                ''ABC6'', ''ABC7'', ''ABC8'', ''ABC9''])"
proof -
  let ?s = "solo_mem\<lparr>malloc_plan := map Some [20 ..< 40]\<rparr>"
  have a: "list_mem ?s 0 \<noteq> None" by (simp add: solo_mem_def)
  have b: "fresh_plan ?s 20"
    by (simp add: fresh_plan_def solo_mem_def live_def upt_rec)
  from round_trip [OF a b] b show ?thesis by simp
qed

end
